theory Spec2Isabelle
  imports Main
begin

section \<open>Strings as the code sees them\<close>

text \<open>
  JavaScript strings are modelled as \<^typ>\<open>string\<close>, one \<^typ>\<open>char\<close> per code unit
  (code units up to 0xFF). \<open>isSpace\<close> is the class \<open>\s\<close> of the regular expressions and
  the set that \<open>String.prototype.trim\<close> strips (white space and line terminators),
  restricted to that range.
\<close>

definition isSpace :: "char \<Rightarrow> bool" where
  "isSpace c = (c = CHR 0x09 \<or> c = CHR 0x0A \<or> c = CHR 0x0B \<or> c = CHR 0x0C \<or>
                c = CHR 0x0D \<or> c = CHR 0x20 \<or> c = CHR 0xA0)"

definition isDigit :: "char \<Rightarrow> bool" where
  "isDigit c = (48 \<le> (of_char c :: nat) \<and> (of_char c :: nat) \<le> 57)"

definition isUpper :: "char \<Rightarrow> bool" where
  "isUpper c = (65 \<le> (of_char c :: nat) \<and> (of_char c :: nat) \<le> 90)"

definition isLower :: "char \<Rightarrow> bool" where
  "isLower c = (97 \<le> (of_char c :: nat) \<and> (of_char c :: nat) \<le> 122)"

definition isAlpha :: "char \<Rightarrow> bool" where
  "isAlpha c = (isUpper c \<or> isLower c)"

text \<open>The class \<open>\w\<close>.\<close>

definition isWordChar :: "char \<Rightarrow> bool" where
  "isWordChar c = (isAlpha c \<or> isDigit c \<or> c = CHR ''_'')"

text \<open>The characters that \<open>.\<close> does not match (line terminators).\<close>

definition isLineTerminator :: "char \<Rightarrow> bool" where
  "isLineTerminator c = (c = CHR 0x0A \<or> c = CHR 0x0D)"

definition trim :: "string \<Rightarrow> string" where
  "trim s = rev (dropWhile isSpace (rev (dropWhile isSpace s)))"

text \<open>
  \<open>toLowerCase\<close> on the letters A to Z. The code compares its results with ASCII literals
  only (\<open><br/>\<close>, the names of \<open>VOID_ELEMENTS\<close>, the style patterns), and no other
  character of the range is mapped to an ASCII one, so the other characters can stay.
\<close>

definition lowerChar :: "char \<Rightarrow> char" where
  "lowerChar c =
     (case map_of (zip ''ABCDEFGHIJKLMNOPQRSTUVWXYZ'' ''abcdefghijklmnopqrstuvwxyz'') c of
        Some l \<Rightarrow> l
      | None \<Rightarrow> c)"

definition toLowerCase :: "string \<Rightarrow> string" where
  "toLowerCase s = map lowerChar s"

definition startsWith :: "string \<Rightarrow> string \<Rightarrow> bool" where
  "startsWith s p = (take (length p) s = p)"

definition endsWith :: "string \<Rightarrow> string \<Rightarrow> bool" where
  "endsWith s p = (length p \<le> length s \<and> drop (length s - length p) s = p)"

text \<open>\<open>s.indexOf(c, i)\<close> for a one-character needle; \<open>None\<close> is the result \<open>-1\<close>.\<close>

definition indexOfFrom :: "char \<Rightarrow> string \<Rightarrow> nat \<Rightarrow> nat option" where
  "indexOfFrom c s i =
     (case dropWhile (\<lambda>x. x \<noteq> c) (drop i s) of
        [] \<Rightarrow> None
      | _ # _ \<Rightarrow> Some (i + length (takeWhile (\<lambda>x. x \<noteq> c) (drop i s))))"

text \<open>\<open>s.substring(a, b)\<close> for \<open>a \<le> b\<close>.\<close>

definition substring :: "string \<Rightarrow> nat \<Rightarrow> nat \<Rightarrow> string" where
  "substring s a b = take (b - a) (drop a s)"

section \<open>The formatter: minify\<close>

text \<open>\<open>html.replace(/\n\s*/g, "")\<close>: every newline goes, with the white space after it.\<close>

function stripNewlines :: "string \<Rightarrow> string" where
  "stripNewlines [] = []"
| "stripNewlines (c # cs) =
     (if c = CHR 0x0A then stripNewlines (dropWhile isSpace cs) else c # stripNewlines cs)"
  by pat_completeness auto
termination
  by (relation "measure length") (auto simp: length_dropWhile_le less_Suc_eq_le)

text \<open>
  \<open>html.replace(/>\s+</g, "><")\<close>: at a \<open>>\<close>, a non-empty run of white space followed by
  \<open><\<close> is dropped and the scan goes on after that \<open><\<close>; anywhere else the character is kept.
\<close>

function collapseTagGaps :: "string \<Rightarrow> string" where
  "collapseTagGaps [] = []"
| "collapseTagGaps (c # cs) =
     (if c = CHR ''>'' \<and> takeWhile isSpace cs \<noteq> [] then
        (case dropWhile isSpace cs of
           [] \<Rightarrow> c # collapseTagGaps cs
         | d # ds \<Rightarrow> if d = CHR ''<'' then CHR ''>'' # CHR ''<'' # collapseTagGaps ds
                    else c # collapseTagGaps cs)
      else c # collapseTagGaps cs)"
  by pat_completeness auto
termination
proof (relation "measure length")
  fix c :: char and cs d ds
  assume "dropWhile isSpace cs = d # ds"
  then have "length (d # ds) \<le> length cs"
    using length_dropWhile_le [of isSpace cs] by simp
  then show "(ds, c # cs) \<in> measure length" by simp
qed auto

definition minifyHTML :: "string \<Rightarrow> string" where
  "minifyHTML html = trim (collapseTagGaps (stripNewlines html))"

section \<open>The formatter: beautify\<close>

definition VOID_ELEMENTS :: "string list" where
  "VOID_ELEMENTS = [''area'', ''base'', ''br'', ''col'', ''embed'', ''hr'', ''img'', ''input'',
                    ''link'', ''meta'', ''param'', ''source'', ''track'', ''wbr'']"

text \<open>
  The tokenizer loop of \<open>beautifyHTML\<close>: \<open>i\<close> is the loop index into \<open>result\<close>, \<open>tokens\<close> the
  array built so far. A \<open>break\<close> returns the tokens.
\<close>

function tokenizeFrom :: "string \<Rightarrow> nat \<Rightarrow> string list \<Rightarrow> string list" where
  "tokenizeFrom result i tokens =
     (if i < length result then
        (if result ! i = CHR ''<'' then
           (case indexOfFrom (CHR ''>'') result i of
              None \<Rightarrow> tokens @ [drop i result]
            | Some e \<Rightarrow> tokenizeFrom result (e + 1) (tokens @ [substring result i (e + 1)]))
         else
           (case indexOfFrom (CHR ''<'') result i of
              None \<Rightarrow> tokens @ [drop i result]
            | Some e \<Rightarrow>
                tokenizeFrom result e
                  (if trim (substring result i e) \<noteq> [] then tokens @ [substring result i e]
                   else tokens)))
      else tokens)"
  by pat_completeness auto
termination
proof (relation "measure (\<lambda>(result, i, tokens). length result - i)")
  fix result :: string and i :: nat and tokens :: "string list" and e
  assume i: "i < length result" and "result ! i = CHR ''<''"
    and "indexOfFrom (CHR ''>'') result i = Some e"
  then have "i \<le> e" by (auto simp: indexOfFrom_def split: list.splits)
  with i show "((result, e + 1, tokens @ [substring result i (e + 1)]), (result, i, tokens))
        \<in> measure (\<lambda>(result, i, tokens). length result - i)" by simp
next
  fix result :: string and i :: nat and tokens :: "string list" and e
  assume i: "i < length result" and n: "result ! i \<noteq> CHR ''<''"
    and e: "indexOfFrom (CHR ''<'') result i = Some e"
  obtain c cs where d: "drop i result = c # cs" and c: "c = result ! i"
    using i by (metis Cons_nth_drop_Suc)
  have "takeWhile (\<lambda>x. x \<noteq> CHR ''<'') (drop i result) \<noteq> []" using d c n by simp
  then have "i < e" using e by (auto simp: indexOfFrom_def split: list.splits)
  with i show "((result, e,
          if trim (substring result i e) \<noteq> [] then tokens @ [substring result i e] else tokens),
         (result, i, tokens)) \<in> measure (\<lambda>(result, i, tokens). length result - i)" by simp
qed simp

text \<open>
  \<open>token.replace(/<\/?(\w+)[\s>].*/, "$1")\<close>: the first place where \<open><\<close>, an optional
  \<open>/\<close>, a non-empty run of word characters and then a white space or \<open>>\<close> follow each other
  is replaced, up to the next line terminator, by the run of word characters; a token with
  no such place is unchanged.
\<close>

fun replaceTagPattern :: "string \<Rightarrow> string" where
  "replaceTagPattern [] = []"
| "replaceTagPattern (c # cs) =
     (let cs1 = (case cs of [] \<Rightarrow> cs | d # ds \<Rightarrow> if d = CHR ''/'' then ds else cs);
          w = takeWhile isWordChar cs1;
          r = dropWhile isWordChar cs1
      in if c = CHR ''<'' \<and> w \<noteq> [] \<and> (case r of [] \<Rightarrow> False | d # _ \<Rightarrow> isSpace d \<or> d = CHR ''>'')
         then w @ dropWhile (\<lambda>x. \<not> isLineTerminator x) (tl r)
         else c # replaceTagPattern cs)"

datatype error = RangeError

text \<open>\<open>String.prototype.repeat\<close> throws a RangeError on a negative count.\<close>

definition repeat :: "string \<Rightarrow> int \<Rightarrow> error + string" where
  "repeat s n = (if n < 0 then Inl RangeError else Inr (concat (replicate (nat n) s)))"

text \<open>The second loop of \<open>beautifyHTML\<close>, over the tokens, with the running \<open>indent\<close>.\<close>

fun emitLines :: "string list \<Rightarrow> int \<Rightarrow> string list \<Rightarrow> error + string list" where
  "emitLines [] indent lines = Inr lines"
| "emitLines (token # tokens) indent lines =
     (if startsWith token ''</'' then
        (let indent1 = max 0 (indent - 1) in
         case repeat ''  '' indent1 of
           Inl e \<Rightarrow> Inl e
         | Inr pad \<Rightarrow> emitLines tokens indent1 (lines @ [pad @ token]))
      else if startsWith token ''<'' then
        (let tagName = toLowerCase (replaceTagPattern token);
             isSelfClosing = (endsWith token ''/>'' \<or> tagName \<in> set VOID_ELEMENTS)
         in case repeat ''  '' indent of
              Inl e \<Rightarrow> Inl e
            | Inr pad \<Rightarrow>
                emitLines tokens
                  (if \<not> isSelfClosing \<and> \<not> startsWith token ''<!'' then indent + 1 else indent)
                  (lines @ [pad @ token]))
      else
        (case repeat ''  '' indent of
           Inl e \<Rightarrow> Inl e
         | Inr pad \<Rightarrow> emitLines tokens indent (lines @ [pad @ token])))"

text \<open>\<open>lines.join("\n")\<close>.\<close>

fun joinLines :: "string list \<Rightarrow> string" where
  "joinLines [] = []"
| "joinLines [l] = l"
| "joinLines (l # ls) = l @ CHR 0x0A # joinLines ls"

definition tokenize :: "string \<Rightarrow> string list" where
  "tokenize html = tokenizeFrom (collapseTagGaps html) 0 []"

definition beautifyHTML :: "string \<Rightarrow> error + string" where
  "beautifyHTML html =
     (case emitLines (tokenize html) 0 [] of
        Inl e \<Rightarrow> Inl e
      | Inr lines \<Rightarrow> Inr (joinLines lines))"

section \<open>Regular expressions of the cleaner\<close>

text \<open>
  The patterns of the source are sequences of character classes, each taken once, optionally
  (\<open>?\<close>) or greedily at least \<open>m\<close> times (\<open>+\<close>, \<open>{2,}\<close>). \<open>matchAtoms\<close> is the backtracking
  matcher of such a sequence at the start of a string: it gives the length of the first match
  in the engine's order (a greedy choice first, then the shorter ones).
\<close>

datatype atom = One "char \<Rightarrow> bool" | Opt "char \<Rightarrow> bool" | Many "char \<Rightarrow> bool" nat

fun matchAtoms :: "atom list \<Rightarrow> string \<Rightarrow> nat option" where
  "matchAtoms [] s = Some 0"
| "matchAtoms (One p # as) [] = None"
| "matchAtoms (One p # as) (c # cs) =
     (if p c then map_option Suc (matchAtoms as cs) else None)"
| "matchAtoms (Opt p # as) [] = matchAtoms as []"
| "matchAtoms (Opt p # as) (c # cs) =
     (if p c then
        (case matchAtoms as cs of
           Some n \<Rightarrow> Some (Suc n)
         | None \<Rightarrow> matchAtoms as (c # cs))
      else matchAtoms as (c # cs))"
| "matchAtoms (Many p m # as) [] = (if m = 0 then matchAtoms as [] else None)"
| "matchAtoms (Many p m # as) (c # cs) =
     (if p c then
        (case matchAtoms (Many p (m - 1) # as) cs of
           Some n \<Rightarrow> Some (Suc n)
         | None \<Rightarrow> if m = 0 then matchAtoms as (c # cs) else None)
      else if m = 0 then matchAtoms as (c # cs) else None)"

text \<open>Alternatives \<open>A|B|...\<close> are tried in order; the first that matches wins.\<close>

fun matchAlternatives :: "atom list list \<Rightarrow> string \<Rightarrow> nat option" where
  "matchAlternatives [] s = None"
| "matchAlternatives (a # alts) s =
     (case matchAtoms a s of Some n \<Rightarrow> Some n | None \<Rightarrow> matchAlternatives alts s)"

definition lit :: "char \<Rightarrow> atom" where
  "lit c = One (\<lambda>x. x = c)"

definition digit :: atom where
  "digit = One isDigit"

definition sep :: atom where
  "sep = Opt (\<lambda>c. isSpace c \<or> c = CHR ''-'')"

text \<open>
  \<open>PHONE_REGEX\<close>, one atom list per alternative, in the order of the source:
  international, landline in parentheses, landline, mobile, 1300/1800.
\<close>

definition PHONE_REGEX :: "atom list list" where
  "PHONE_REGEX =
     [ [lit CHR ''+'', lit CHR ''6'', lit CHR ''1'', Opt isSpace, digit, sep,
        digit, digit, digit, digit, sep, digit, digit, digit, digit],
       [lit CHR ''('', lit CHR ''0'', digit, lit CHR '')'', Opt isSpace,
        digit, digit, digit, digit, sep, digit, digit, digit, digit],
       [lit CHR ''0'',
        One (\<lambda>c. c = CHR ''2'' \<or> c = CHR ''3'' \<or> c = CHR ''4'' \<or> c = CHR ''7'' \<or> c = CHR ''8''),
        Opt isSpace, digit, digit, digit, digit, sep, digit, digit, digit, digit],
       [lit CHR ''0'', lit CHR ''4'', digit, digit, sep, digit, digit, digit, sep,
        digit, digit, digit],
       [lit CHR ''1'', One (\<lambda>c. c = CHR ''3'' \<or> c = CHR ''8''), lit CHR ''0'', lit CHR ''0'', sep,
        digit, digit, digit, sep, digit, digit, digit] ]"

definition EMAIL_REGEX :: "atom list" where
  "EMAIL_REGEX =
     [ Many (\<lambda>c. isAlpha c \<or> isDigit c \<or> c = CHR ''.'' \<or> c = CHR ''_'' \<or> c = CHR ''%'' \<or>
                 c = CHR ''+'' \<or> c = CHR ''-'') 1,
       lit CHR ''@'',
       Many (\<lambda>c. isAlpha c \<or> isDigit c \<or> c = CHR ''.'' \<or> c = CHR ''-'') 1,
       lit CHR ''.'',
       Many isAlpha 2 ]"

text \<open>
  The combined pattern \<open>(PHONE)|(EMAIL)\<close> at the start of a string: the length of the match
  and whether group 1 (the phone group) took part.
\<close>

definition matchCombined :: "string \<Rightarrow> (nat \<times> bool) option" where
  "matchCombined s =
     (case matchAlternatives PHONE_REGEX s of
        Some n \<Rightarrow> Some (n, True)
      | None \<Rightarrow> (case matchAtoms EMAIL_REGEX s of Some n \<Rightarrow> Some (n, False) | None \<Rightarrow> None))"

text \<open>
  \<open>[...text.matchAll(combined)]\<close> from index \<open>i\<close>: each match as (index, matched text, group 1
  took part). The search moves one position on where nothing matches, and restarts after a
  match (one position further after an empty match).
\<close>

function matchAllFrom :: "string \<Rightarrow> nat \<Rightarrow> (nat \<times> string \<times> bool) list" where
  "matchAllFrom text i =
     (if length text < i then []
      else (case matchCombined (drop i text) of
              None \<Rightarrow> matchAllFrom text (i + 1)
            | Some (n, g1) \<Rightarrow>
                (i, take n (drop i text), g1) # matchAllFrom text (if n = 0 then i + 1 else i + n)))"
  by pat_completeness auto
termination
  by (relation "measure (\<lambda>(text, i). length text + 1 - i)") auto

section \<open>The document tree\<close>

text \<open>
  A node of the tree that \<open>DOMParser\<close> builds: an element with its \<open>tagName\<close>, its attributes
  in order, and its child nodes; a text node; a comment node; an HTML \<open>template\<close> element.

  The DOM reports the \<open>tagName\<close> of an HTML element in upper case and that of an SVG or MathML
  element as written (\<open>svg\<close>, \<open>a\<close>, \<open>foreignObject\<close>: it starts with a lower-case letter),
  so the tag name also tells the two kinds apart. The parser never leaves a \<open>p\<close>, \<open>li\<close>,
  \<open>span\<close>, \<open>b\<close> or \<open>strong\<close> element in SVG or MathML content (these tags end it); it does
  leave \<open>a\<close> elements there.

  An HTML \<open>template\<close> element has no child nodes: the parser puts what is written inside it
  into its separate \<open>content\<close> fragment, which \<open>childNodes\<close>, \<open>textContent\<close>,
  \<open>querySelectorAll\<close> and a \<open>TreeWalker\<close> do not reach, and which \<open>innerHTML\<close> serialises.
  \<open>Template attrs content\<close> is such an element with the nodes of its content.
\<close>

datatype node =
    Element string "(string \<times> string) list" "node list"
  | Text string
  | Comment string
  | Template "(string \<times> string) list" "node list"

definition upperChar :: "char \<Rightarrow> char" where
  "upperChar c =
     (case map_of (zip ''abcdefghijklmnopqrstuvwxyz'' ''ABCDEFGHIJKLMNOPQRSTUVWXYZ'') c of
        Some u \<Rightarrow> u
      | None \<Rightarrow> c)"

text \<open>\<open>document.createElement(name)\<close>: a new element without attributes or children.\<close>

definition createElement :: "string \<Rightarrow> node list \<Rightarrow> node" where
  "createElement name kids = Element (map upperChar name) [] kids"

definition getAttribute :: "(string \<times> string) list \<Rightarrow> string \<Rightarrow> string option" where
  "getAttribute attrs name = map_of attrs name"

definition removeAttribute :: "(string \<times> string) list \<Rightarrow> string \<Rightarrow> (string \<times> string) list" where
  "removeAttribute attrs name = filter (\<lambda>(n, v). n \<noteq> name) attrs"

text \<open>
  \<open>textContent\<close> of an element is the text of its text-node descendants in tree order;
  comments add nothing to it.
\<close>

fun textContent :: "node \<Rightarrow> string" where
  "textContent (Text t) = t"
| "textContent (Comment c) = []"
| "textContent (Element tag attrs kids) = concat (map textContent kids)"
| "textContent (Template attrs content) = []"

definition indexOf :: "char \<Rightarrow> string \<Rightarrow> nat option" where
  "indexOf c s = indexOfFrom c s 0"

section \<open>Stage 1: processNode\<close>

text \<open>
  \<open>re.test(s)\<close> for a pattern given by its alternatives: is there a match anywhere in \<open>s\<close>?
\<close>

fun regexTest :: "atom list list \<Rightarrow> string \<Rightarrow> bool" where
  "regexTest alts [] = (matchAlternatives alts [] \<noteq> None)"
| "regexTest alts (c # cs) = (matchAlternatives alts (c # cs) \<noteq> None \<or> regexTest alts cs)"

text \<open>
  \<open>/font-weight:\s*(bold|700|800|900)/i\<close> and \<open>/font-style:\s*italic/i\<close>. The flag \<open>i\<close> is
  modelled by matching the lower-case patterns on the lower-cased string.
\<close>

definition isBoldStyle :: "string \<Rightarrow> bool" where
  "isBoldStyle style =
     regexTest
       (map (\<lambda>w. map lit ''font-weight:'' @ [Many isSpace 0] @ map lit w)
            [''bold'', ''700'', ''800'', ''900''])
       (toLowerCase style)"

definition isItalicStyle :: "string \<Rightarrow> bool" where
  "isItalicStyle style =
     regexTest [map lit ''font-style:'' @ [Many isSpace 0] @ map lit ''italic'']
       (toLowerCase style)"

text \<open>
  The attribute clean-up at the head of \<open>processNode\<close>: the four names of \<open>attrsToRemove\<close>,
  then \<open>role\<close> when its value is \<open>presentation\<close>, then every attribute whose trimmed value
  is empty.
\<close>

definition attrsToRemove :: "string list" where
  "attrsToRemove = [''class'', ''style'', ''dir'', ''aria-level'']"

definition stripAttributes :: "(string \<times> string) list \<Rightarrow> (string \<times> string) list" where
  "stripAttributes attrs =
     (let a1 = foldl removeAttribute attrs attrsToRemove;
          a2 = (if getAttribute a1 ''role'' = Some ''presentation''
                then removeAttribute a1 ''role'' else a1)
      in filter (\<lambda>(n, v). trim v \<noteq> []) a2)"

text \<open>
  \<open>checkForHeadingMarker\<close>, on the tag name and the children of the element: \<open>Some\<close> heading
  is the result \<open>true\<close>, with the element that replaces the paragraph in its parent; \<open>None\<close>
  is \<open>false\<close>. Setting \<open>textContent\<close> to the empty string leaves the heading without
  children.
\<close>

definition checkForHeadingMarker :: "string \<Rightarrow> node list \<Rightarrow> node option" where
  "checkForHeadingMarker tagName kids =
     (if tagName \<noteq> ''P'' then None
      else
        (let text = trim (concat (map textContent kids));
             marker =
               (if startsWith text ''H1:'' then Some (''h1'', ''H1:'')
                else if startsWith text ''H2:'' then Some (''h2'', ''H2:'')
                else if startsWith text ''H3:'' then Some (''h3'', ''H3:'')
                else if startsWith text ''H4:'' then Some (''h4'', ''H4:'')
                else None)
         in case marker of
              None \<Rightarrow> None
            | Some (headingLevel, prefix) \<Rightarrow>
                (let headingText = trim (drop (length prefix) text)
                 in Some (createElement headingLevel
                            (if headingText = [] then [] else [Text headingText])))))"

text \<open>
  \<open>processNode\<close> on a node that has a parent: the result is the list of nodes that stand in
  its place afterwards (the node itself, its replacement, or its children when it is
  unwrapped). The children are visited first; a comment child is removed, an element child
  is processed, a text child stays. The \<open>style\<close> attribute is read after the attributes have
  been stripped, as in the source. A \<open>template\<close> element has no child nodes to visit; it
  is an element, so its own attributes are stripped, and it is neither \<open>P\<close> nor \<open>SPAN\<close>.
\<close>

fun processNode :: "node \<Rightarrow> node list" where
  "processNode (Text t) = [Text t]"
| "processNode (Comment c) = []"
| "processNode (Template attrs content) =
     (let attrs1 = stripAttributes attrs
      in case checkForHeadingMarker ''TEMPLATE'' [] of
           Some heading \<Rightarrow> [heading]
         | None \<Rightarrow> [Template attrs1 content])"
| "processNode (Element tagName attrs kids) =
     (let kids1 = concat (map processNode kids);
          attrs1 = stripAttributes attrs
      in case checkForHeadingMarker tagName kids1 of
           Some heading \<Rightarrow> [heading]
         | None \<Rightarrow>
             if tagName = ''SPAN'' then
               (let style = (case getAttribute attrs1 ''style'' of None \<Rightarrow> [] | Some v \<Rightarrow> v);
                    isBold = isBoldStyle style;
                    isItalic = isItalicStyle style
                in if isBold then
                     [createElement ''strong''
                        (if isItalic then [createElement ''em'' kids1] else kids1)]
                   else if isItalic then [createElement ''em'' kids1]
                   else kids1)
             else [Element tagName attrs1 kids1])"

section \<open>Stage 2: cleanListItems\<close>

text \<open>\<open>unwrapElement\<close> on every \<open>p\<close> below a list item: its children take its place.\<close>

fun unwrapParagraphs :: "node \<Rightarrow> node list" where
  "unwrapParagraphs (Text t) = [Text t]"
| "unwrapParagraphs (Comment c) = [Comment c]"
| "unwrapParagraphs (Template attrs content) = [Template attrs content]"
| "unwrapParagraphs (Element tagName attrs kids) =
     (let kids1 = concat (map unwrapParagraphs kids)
      in if tagName = ''P'' then kids1 else [Element tagName attrs kids1])"

text \<open>
  The loop of \<open>boldUpToColon\<close> over the snapshot of the children. \<open>strongKids\<close> are the
  children of the new \<open>strong\<close> so far (each was removed from the item), \<open>kept\<close> the visited
  children still in the item (nodes that are neither text nor element). The result is the
  children of the item when the function returns.
\<close>

fun boldScan :: "node list \<Rightarrow> node list \<Rightarrow> node list \<Rightarrow> node list" where
  "boldScan [] strongKids kept = kept @ strongKids"
| "boldScan (Text text # rest) strongKids kept =
     (case indexOf CHR '':'' text of
        Some colonIdx \<Rightarrow>
          (let beforeColon = take (colonIdx + 1) text;
               afterColon = drop (colonIdx + 1) text
           in kept @ [createElement ''strong'' (strongKids @ [Text beforeColon])]
                @ (if afterColon \<noteq> [] then [Text afterColon] else []) @ rest)
      | None \<Rightarrow> boldScan rest (strongKids @ [Text text]) kept)"
| "boldScan (Element tagName attrs kids # rest) strongKids kept =
     (if tagName = ''STRONG'' \<or> tagName = ''B'' then kept @ Element tagName attrs kids # rest
      else
        (case indexOf CHR '':'' (textContent (Element tagName attrs kids)) of
           Some colonIdx \<Rightarrow>
             createElement ''strong'' (strongKids @ [Element tagName attrs kids]) # kept @ rest
         | None \<Rightarrow> boldScan rest (strongKids @ [Element tagName attrs kids]) kept))"
| "boldScan (Template attrs content # rest) strongKids kept =
     (case indexOf CHR '':'' (textContent (Template attrs content)) of
        Some colonIdx \<Rightarrow>
          createElement ''strong'' (strongKids @ [Template attrs content]) # kept @ rest
      | None \<Rightarrow> boldScan rest (strongKids @ [Template attrs content]) kept)"
| "boldScan (Comment c # rest) strongKids kept = boldScan rest strongKids (kept @ [Comment c])"

definition boldUpToColon :: "node list \<Rightarrow> node list" where
  "boldUpToColon kids = boldScan kids [] []"

text \<open>The body of the loop of \<open>cleanListItems\<close> for one \<open>li\<close>, on its children.\<close>

definition cleanListItem :: "node list \<Rightarrow> node list" where
  "cleanListItem kids =
     (let kids1 = concat (map unwrapParagraphs kids);
          firstIsBold =
            (case kids1 of
               Element tagName attrs ks # rest \<Rightarrow> tagName = ''STRONG'' \<or> tagName = ''B''
             | _ \<Rightarrow> False)
      in if firstIsBold then kids1
         else
           (case indexOf CHR '':'' (concat (map textContent kids1)) of
              None \<Rightarrow> kids1
            | Some colonIndex \<Rightarrow>
                if 0 < colonIndex \<and> colonIndex < 80 then boldUpToColon kids1 else kids1))"

fun liCount :: "node \<Rightarrow> nat" where
  "liCount (Text t) = 0"
| "liCount (Comment c) = 0"
| "liCount (Template attrs content) = 0"
| "liCount (Element tagName attrs kids) =
     (if tagName = ''LI'' then 1 else 0) + sum_list (map liCount kids)"

text \<open>
  \<open>cleanListItems\<close> visits the \<open>li\<close> elements in document order, an outer item before the
  items nested in it, and rewrites each in place. On the tree this is a descent from the top:
  at an \<open>li\<close> the children are rewritten by \<open>cleanListItem\<close>, and the descent goes on into
  the rewritten children. (Nodes that \<open>boldUpToColon\<close> leaves detached are no longer part of
  the document.)
\<close>

function cleanListItems :: "node \<Rightarrow> node" where
  "cleanListItems (Text t) = Text t"
| "cleanListItems (Comment c) = Comment c"
| "cleanListItems (Template attrs content) = Template attrs content"
| "cleanListItems (Element tagName attrs kids) =
     (if tagName = ''LI'' then Element tagName attrs (map cleanListItems (cleanListItem kids))
      else Element tagName attrs (map cleanListItems kids))"
  by pat_completeness auto
termination
proof (relation "inv_image (less_than <*lex*> less_than) (\<lambda>n. (liCount n, size n))")
  show "wf (inv_image (less_than <*lex*> less_than) (\<lambda>n. (liCount n, size n)))"
    by (intro wf_inv_image wf_lex_prod wf_less_than)
next
  fix tagName :: string and attrs :: "(string \<times> string) list" and kids :: "node list" and x
  assume li: "tagName = ''LI''" and x: "x \<in> set (cleanListItem kids)"
  have strong: "createElement ''strong'' ks = Element ''STRONG'' [] ks" for ks
    by (simp add: createElement_def upperChar_def)
  have unwrap1: "sum_list (map liCount (unwrapParagraphs n)) = liCount n" for n
  proof (induction n)
    case (Element t a ks)
    have "sum_list (map liCount (concat (map unwrapParagraphs ks))) = sum_list (map liCount ks)"
      using Element by (induction ks) auto
    then show ?case by (simp add: Let_def)
  qed simp_all
  have unwrap: "sum_list (map liCount (concat (map unwrapParagraphs ks))) = sum_list (map liCount ks)"
    for ks by (induction ks) (auto simp: unwrap1)
  have scan: "sum_list (map liCount (boldScan ks sk kept))
      \<le> sum_list (map liCount ks) + sum_list (map liCount sk) + sum_list (map liCount kept)"
    for ks sk kept
    by (induction ks sk kept rule: boldScan.induct)
       (auto simp: strong Let_def split: option.splits)
  have "sum_list (map liCount (cleanListItem kids)) \<le> sum_list (map liCount kids)"
    using scan [of "concat (map unwrapParagraphs kids)" "[]" "[]"] unwrap [of kids]
    by (auto simp: cleanListItem_def boldUpToColon_def Let_def split: option.splits)
  moreover have "liCount x \<le> sum_list (map liCount (cleanListItem kids))"
    using x by (simp add: member_le_sum_list)
  ultimately show "(x, Element tagName attrs kids)
      \<in> inv_image (less_than <*lex*> less_than) (\<lambda>n. (liCount n, size n))"
    using li by simp
next
  fix tagName :: string and attrs :: "(string \<times> string) list" and kids :: "node list" and x
  assume "tagName \<noteq> ''LI''" and x: "x \<in> set kids"
  have "liCount x \<le> sum_list (map liCount kids)" using x by (simp add: member_le_sum_list)
  moreover have "size x < Suc (size_list size kids)"
    using x by (simp add: less_Suc_eq_le size_list_estimation')
  ultimately show "(x, Element tagName attrs kids)
      \<in> inv_image (less_than <*lex*> less_than) (\<lambda>n. (liCount n, size n))"
    by auto
qed

section \<open>Serialisation (\<open>innerHTML\<close>)\<close>

text \<open>
  \<open>innerHTML\<close> is the platform's fragment serialisation: an element as its start tag with
  the attributes, its children and its end tag (no children and no end tag for a void
  element); a text node escaped, except below a raw-text element; a comment between its
  markers.
\<close>

definition escapeText :: "string \<Rightarrow> string" where
  "escapeText s =
     concat (map (\<lambda>c. if c = CHR ''&'' then ''&amp;''
                       else if c = CHR 0xA0 then ''&nbsp;''
                       else if c = CHR ''<'' then ''&lt;''
                       else if c = CHR ''>'' then ''&gt;''
                       else [c]) s)"

definition escapeAttribute :: "string \<Rightarrow> string" where
  "escapeAttribute s =
     concat (map (\<lambda>c. if c = CHR ''&'' then ''&amp;''
                       else if c = CHR 0xA0 then ''&nbsp;''
                       else if c = CHR 0x22 then ''&quot;''
                       else if c = CHR ''<'' then ''&lt;''
                       else if c = CHR ''>'' then ''&gt;''
                       else [c]) s)"

definition rawTextElements :: "string list" where
  "rawTextElements = [''STYLE'', ''SCRIPT'', ''XMP'', ''IFRAME'', ''NOEMBED'', ''NOFRAMES'',
                      ''PLAINTEXT'']"

definition serialVoidElements :: "string list" where
  "serialVoidElements = [''AREA'', ''BASE'', ''BASEFONT'', ''BGSOUND'', ''BR'', ''COL'', ''EMBED'',
                         ''FRAME'', ''HR'', ''IMG'', ''INPUT'', ''KEYGEN'', ''LINK'', ''META'',
                         ''PARAM'', ''SOURCE'', ''TRACK'', ''WBR'']"

definition serializeAttribute :: "string \<times> string \<Rightarrow> string" where
  "serializeAttribute a = CHR '' '' # fst a @ CHR ''='' # CHR 0x22 # escapeAttribute (snd a) @ [CHR 0x22]"

text \<open>
  The name written in a tag: the lower-case name of an HTML element, and the name as it is
  of an SVG or MathML element.
\<close>

definition qualifiedName :: "string \<Rightarrow> string" where
  "qualifiedName tagName = (if list_ex isLower tagName then tagName else toLowerCase tagName)"

text \<open>
  \<open>serializeNode parent n\<close>: the serialisation of \<open>n\<close> as a child of an element \<open>parent\<close>.
  Between the tags of a \<open>template\<close> element stands the serialisation of its content.
\<close>

fun serializeNode :: "string \<Rightarrow> node \<Rightarrow> string" where
  "serializeNode parent (Text t) = (if parent \<in> set rawTextElements then t else escapeText t)"
| "serializeNode parent (Comment c) = ''<!--'' @ c @ ''-->''"
| "serializeNode parent (Element tagName attrs kids) =
     CHR ''<'' # qualifiedName tagName @ concat (map serializeAttribute attrs) @ CHR ''>'' #
       (if tagName \<in> set serialVoidElements then []
        else concat (map (serializeNode tagName) kids) @ ''</'' @ qualifiedName tagName @ ''>'')"
| "serializeNode parent (Template attrs content) =
     ''<template'' @ concat (map serializeAttribute attrs) @ CHR ''>'' #
       concat (map (serializeNode ''TEMPLATE'') content) @ ''</template>''"

definition innerHTML :: "string \<Rightarrow> node list \<Rightarrow> string" where
  "innerHTML tagName kids = concat (map (serializeNode tagName) kids)"

section \<open>Stage 3: removeEmptyElements\<close>

definition usefulAttrs :: "string list" where
  "usefulAttrs = [''href'', ''src'', ''alt'', ''title'', ''id'', ''name'', ''data-'', ''aria-'', ''role'']"

definition hasUsefulAttributes :: "(string \<times> string) list \<Rightarrow> bool" where
  "hasUsefulAttributes attrs =
     list_ex (\<lambda>attr. list_ex (\<lambda>useful. startsWith (fst attr) useful) usefulAttrs) attrs"

definition selfClosing :: "string list" where
  "selfClosing = [''IMG'', ''BR'', ''HR'', ''INPUT'', ''META'', ''LINK'']"

text \<open>
  \<open>removeEmptyElements\<close> on a node below the body: the nodes that stand in its place
  afterwards (none when it is removed). Element children are pruned first. A \<open>template\<close>
  element has none; its \<open>innerHTML\<close> is the serialisation of its content.
\<close>

fun removeEmptyElements :: "node \<Rightarrow> node list" where
  "removeEmptyElements (Text t) = [Text t]"
| "removeEmptyElements (Comment c) = [Comment c]"
| "removeEmptyElements (Template attrs content) =
     (let inner = trim (innerHTML ''TEMPLATE'' content)
      in if ''TEMPLATE'' \<notin> set selfClosing \<and> inner = [] \<and> \<not> hasUsefulAttributes attrs
         then []
         else [Template attrs content])"
| "removeEmptyElements (Element tagName attrs kids) =
     (let kids1 = concat (map removeEmptyElements kids);
          inner = trim (innerHTML tagName kids1)
      in if tagName = ''P'' \<and> (inner = [] \<or> inner = ''<br>'' \<or> toLowerCase inner = ''<br/>'')
         then []
         else if tagName \<notin> set selfClosing \<and> inner = [] \<and> \<not> hasUsefulAttributes attrs
         then []
         else [Element tagName attrs kids1])"

section \<open>Stage 4: autoLinkEmailsAndPhones\<close>

text \<open>\<open>matchText.replace(/[\s()-]/g, "")\<close>.\<close>

definition stripPhoneSeparators :: "string \<Rightarrow> string" where
  "stripPhoneSeparators matchText =
     filter (\<lambda>c. \<not> (isSpace c \<or> c = CHR ''('' \<or> c = CHR '')'' \<or> c = CHR ''-'')) matchText"

text \<open>The anchor built for one match; \<open>g1\<close> says whether group 1 took part (\<open>match[1]\<close>).\<close>

definition makeAnchor :: "string \<Rightarrow> bool \<Rightarrow> node" where
  "makeAnchor matchText g1 =
     Element ''A''
       [(''href'', if g1 \<and> matchText \<noteq> [] then ''tel:'' @ stripPhoneSeparators matchText
                  else ''mailto:'' @ matchText)]
       (if matchText = [] then [] else [Text matchText])"

text \<open>The loop over the matches, with \<open>lastIndex\<close> and the fragment built so far.\<close>

fun buildFragment :: "string \<Rightarrow> (nat \<times> string \<times> bool) list \<Rightarrow> nat \<Rightarrow> node list \<Rightarrow> node list" where
  "buildFragment text [] lastIndex fragment =
     (if lastIndex < length text then fragment @ [Text (drop lastIndex text)] else fragment)"
| "buildFragment text ((matchIndex, matchText, g1) # matches) lastIndex fragment =
     buildFragment text matches (matchIndex + length matchText)
       ((if lastIndex < matchIndex then fragment @ [Text (substring text lastIndex matchIndex)]
         else fragment) @ [makeAnchor matchText g1])"

text \<open>What one text node outside a link is replaced by.\<close>

definition linkText :: "string \<Rightarrow> node list" where
  "linkText text =
     (let matches = matchAllFrom text 0
      in if matches = [] then [Text text] else buildFragment text matches 0 [])"

text \<open>
  \<open>autoLink insideLink n\<close>: the nodes in place of \<open>n\<close> after the pass; \<open>insideLink\<close> says
  whether an ancestor is an \<open>a\<close> element (\<open>closest("a")\<close>). The selector \<open>a\<close> matches the
  HTML element (tag name \<open>A\<close>) and an SVG or MathML element with the name \<open>a\<close>. The walker
  does not enter the content of a \<open>template\<close>.
\<close>

fun autoLink :: "bool \<Rightarrow> node \<Rightarrow> node list" where
  "autoLink insideLink (Text t) = (if insideLink then [Text t] else linkText t)"
| "autoLink insideLink (Comment c) = [Comment c]"
| "autoLink insideLink (Element tagName attrs kids) =
     [Element tagName attrs
        (concat (map (autoLink (insideLink \<or> tagName = ''A'' \<or> tagName = ''a'')) kids))]"
| "autoLink insideLink (Template attrs content) = [Template attrs content]"

section \<open>cleanHTML\<close>

text \<open>
  The four passes over the body, on the list of the body's children (the body itself, with
  tag name \<open>BODY\<close>, is neither a paragraph nor a span, is exempt from pruning, and is not part
  of its own \<open>innerHTML\<close>). \<open>cleanTree\<close> is the tree before serialisation; \<open>cleanHTML\<close> takes
  the children of the body that the parser built from the input string.
\<close>

definition cleanTree :: "node list \<Rightarrow> node list" where
  "cleanTree body =
     concat (map (autoLink False)
       (concat (map removeEmptyElements
         (map cleanListItems
           (concat (map processNode body))))))"

definition cleanHTML :: "node list \<Rightarrow> string" where
  "cleanHTML body = trim (innerHTML ''BODY'' (cleanTree body))"

section \<open>Notions used in the statements\<close>

text \<open>
  \<open>everyElement P n\<close>: \<open>P\<close> holds of the tag name, the attributes and the children of every
  element in the subtree \<open>n\<close>; for a \<open>template\<close> element, of its tag name, its attributes
  and its content. The nodes inside the content of a template are not part of the subtree.
\<close>

fun everyElement :: "(string \<Rightarrow> (string \<times> string) list \<Rightarrow> node list \<Rightarrow> bool) \<Rightarrow> node \<Rightarrow> bool" where
  "everyElement P (Text t) = True"
| "everyElement P (Comment c) = True"
| "everyElement P (Template attrs content) = P ''TEMPLATE'' attrs content"
| "everyElement P (Element tagName attrs kids) =
     (P tagName attrs kids \<and> list_all (everyElement P) kids)"


definition attrsAll :: "((string \<times> string) list \<Rightarrow> bool) \<Rightarrow> node \<Rightarrow> bool" where
  "attrsAll Q = everyElement (\<lambda>tagName attrs kids. Q attrs)"

text \<open>
  The parser gives an element each attribute name at most once; \<open>uniqueAttributes\<close> says so
  of a subtree.
\<close>

definition uniqueAttributes :: "node \<Rightarrow> bool" where
  "uniqueAttributes = everyElement (\<lambda>tagName attrs kids. distinct (map fst attrs))"

text \<open>
  An attribute that the clean-up of \<open>processNode\<close> leaves alone: not one of the four
  stripped names, not \<open>role="presentation"\<close>, and with a value that is not blank.
\<close>

definition cleanAttribute :: "string \<times> string \<Rightarrow> bool" where
  "cleanAttribute a =
     (fst a \<notin> set attrsToRemove \<and> \<not> (fst a = ''role'' \<and> snd a = ''presentation'') \<and> trim (snd a) \<noteq> [])"






text \<open>
  The part of a phone link's target after \<open>tel:\<close>: decimal digits, or a \<open>+\<close> and then
  decimal digits.
\<close>

definition telDigits :: "string \<Rightarrow> bool" where
  "telDigits d =
     (list_all isDigit d \<or>
      (case d of [] \<Rightarrow> False | c # ds \<Rightarrow> c = CHR ''+'' \<and> list_all isDigit ds))"

text \<open>A node whose serialisation is white space only.\<close>

definition blankNode :: "string \<Rightarrow> node \<Rightarrow> bool" where
  "blankNode parent n = list_all isSpace (serializeNode parent n)"

text \<open>
  For the matcher: the class of an atom, and the characters that the national phone forms can
  match. For the formatter: \<open>gapAt c cs\<close> says that \<open>collapseTagGaps\<close> replaces at \<open>c # cs\<close>;
  \<open>rstrip\<close> is the right half of \<open>trim\<close>.
\<close>

fun atomPred :: "atom \<Rightarrow> char \<Rightarrow> bool" where
  "atomPred (One p) = p"
| "atomPred (Opt p) = p"
| "atomPred (Many p m) = p"

definition phoneChar :: "char \<Rightarrow> bool" where
  "phoneChar c = (isDigit c \<or> isSpace c \<or> c = CHR ''-'' \<or> c = CHR ''('' \<or> c = CHR '')'')"

definition gapAt :: "char \<Rightarrow> string \<Rightarrow> bool" where
  "gapAt c cs =
     (c = CHR ''>'' \<and> takeWhile isSpace cs \<noteq> [] \<and>
      (case dropWhile isSpace cs of [] \<Rightarrow> False | d # ds \<Rightarrow> d = CHR ''<''))"

definition rstrip :: "string \<Rightarrow> string" where
  "rstrip s = rev (dropWhile isSpace (rev s))"

section \<open>Properties of minify\<close>

lemma isSpace_not_gt [simp]: "\<not> isSpace (CHR ''>'')" "\<not> isSpace (CHR ''<'')"
  by (simp_all add: isSpace_def)

lemma isSpace_nl [simp]: "isSpace (CHR 0x0A)"
  by (simp add: isSpace_def)

lemma set_dropWhile_subset: "set (dropWhile P xs) \<subseteq> set xs"
  by (induction xs) auto

lemma stripNewlines_no_newline: "CHR 0x0A \<notin> set (stripNewlines s)"
  by (induction s rule: stripNewlines.induct) auto

lemma stripNewlines_id: "CHR 0x0A \<notin> set s \<Longrightarrow> stripNewlines s = s"
  by (induction s) auto

lemma gapAt_iff:
  "gapAt c cs \<longleftrightarrow> c = CHR ''>'' \<and> takeWhile isSpace cs \<noteq> [] \<and>
                 (\<exists>ds. dropWhile isSpace cs = CHR ''<'' # ds)"
proof (cases "dropWhile isSpace cs")
  case Nil
  show ?thesis unfolding gapAt_def Nil by simp
next
  case (Cons d ds)
  show ?thesis unfolding gapAt_def Cons by auto
qed

lemma collapse_keep: "\<not> gapAt c cs \<Longrightarrow> collapseTagGaps (c # cs) = c # collapseTagGaps cs"
  by (auto simp: gapAt_iff split: list.splits)

lemma collapse_gap:
  "takeWhile isSpace cs \<noteq> [] \<Longrightarrow> dropWhile isSpace cs = CHR ''<'' # ds \<Longrightarrow>
   collapseTagGaps (CHR ''>'' # cs) = CHR ''>'' # CHR ''<'' # collapseTagGaps ds"
  by simp

declare collapseTagGaps.simps(2) [simp del]

lemma not_gapAt_space [simp]: "isSpace c \<Longrightarrow> \<not> gapAt c cs"
  by (auto simp: gapAt_iff)

lemma set_collapseTagGaps: "set (collapseTagGaps s) \<subseteq> set s"
proof (induction "length s" arbitrary: s rule: less_induct)
  case less
  show ?case
  proof (cases s)
    case Nil
    then show ?thesis by simp
  next
    case (Cons c cs)
    show ?thesis
    proof (cases "gapAt c cs")
      case False
      then show ?thesis using less [of cs] Cons by (auto simp: collapse_keep)
    next
      case True
      then obtain ds where c: "c = CHR ''>''" and t: "takeWhile isSpace cs \<noteq> []"
        and d: "dropWhile isSpace cs = CHR ''<'' # ds" by (auto simp: gapAt_iff)
      have sub: "set (CHR ''<'' # ds) \<subseteq> set cs"
        using set_dropWhile_subset [of isSpace cs] d by simp
      have "length ds < length s"
        using length_dropWhile_le [of isSpace cs] d Cons by simp
      then have "set (collapseTagGaps ds) \<subseteq> set ds" using less by blast
      then show ?thesis using sub Cons c collapse_gap [OF t d] by auto
    qed
  qed
qed

lemma set_trim: "set (trim s) \<subseteq> set s"
  unfolding trim_def using set_dropWhile_subset [of isSpace "rev (dropWhile isSpace s)"]
    set_dropWhile_subset [of isSpace s] by auto

lemma collapse_hd: "\<not> isSpace c \<Longrightarrow> \<exists>r. collapseTagGaps (c # cs) = c # r"
  by (cases "gapAt c cs") (auto simp: collapse_keep gapAt_iff collapse_gap)

lemma dropWhile_collapse:
  "dropWhile isSpace (collapseTagGaps s) = collapseTagGaps (dropWhile isSpace s)"
proof (induction s)
  case Nil
  then show ?case by simp
next
  case (Cons c cs)
  show ?case
  proof (cases "isSpace c")
    case True
    with Cons show ?thesis by (simp add: collapse_keep)
  next
    case False
    then obtain r where "collapseTagGaps (c # cs) = c # r" using collapse_hd by blast
    with False show ?thesis by simp
  qed
qed

lemma takeWhile_collapse:
  "takeWhile isSpace (collapseTagGaps s) = takeWhile isSpace s"
proof (induction s)
  case Nil
  then show ?case by simp
next
  case (Cons c cs)
  show ?case
  proof (cases "isSpace c")
    case True
    with Cons show ?thesis by (simp add: collapse_keep)
  next
    case False
    then obtain r where "collapseTagGaps (c # cs) = c # r" using collapse_hd by blast
    with False show ?thesis by simp
  qed
qed

lemma gapAt_collapse: "gapAt c (collapseTagGaps cs) = gapAt c cs"
proof -
  have "(\<exists>ds. collapseTagGaps (dropWhile isSpace cs) = CHR ''<'' # ds)
        = (\<exists>ds. dropWhile isSpace cs = CHR ''<'' # ds)"
  proof (cases "dropWhile isSpace cs")
    case Nil
    show ?thesis unfolding Nil by simp
  next
    case (Cons d ds)
    then have "\<not> isSpace d" by (metis dropWhile_eq_Cons_conv)
    then obtain r where "collapseTagGaps (d # ds) = d # r" using collapse_hd by blast
    with Cons show ?thesis by simp
  qed
  then show ?thesis by (simp add: gapAt_iff takeWhile_collapse dropWhile_collapse)
qed

lemma collapse_idem: "collapseTagGaps (collapseTagGaps s) = collapseTagGaps s"
proof (induction "length s" arbitrary: s rule: less_induct)
  case less
  show ?case
  proof (cases s)
    case Nil
    then show ?thesis by simp
  next
    case (Cons c cs)
    show ?thesis
    proof (cases "gapAt c cs")
      case False
      then have "\<not> gapAt c (collapseTagGaps cs)" by (simp add: gapAt_collapse)
      then show ?thesis using False less [of cs] Cons by (simp add: collapse_keep)
    next
      case True
      then obtain ds where c: "c = CHR ''>''" and t: "takeWhile isSpace cs \<noteq> []"
        and d: "dropWhile isSpace cs = CHR ''<'' # ds" by (auto simp: gapAt_iff)
      have "length ds < length s"
        using length_dropWhile_le [of isSpace cs] d Cons by simp
      then have ih: "collapseTagGaps (collapseTagGaps ds) = collapseTagGaps ds"
        using less by blast
      have n1: "\<not> gapAt (CHR ''>'') (CHR ''<'' # collapseTagGaps ds)" by (simp add: gapAt_iff)
      have n2: "\<not> gapAt (CHR ''<'') (collapseTagGaps ds)" by (simp add: gapAt_iff)
      show ?thesis
        using Cons c collapse_gap [OF t d] ih by (simp add: collapse_keep [OF n1] collapse_keep [OF n2])
    qed
  qed
qed

text \<open>Trailing white space is out of reach of the collapse.\<close>

lemma collapse_all_space: "\<forall>c\<in>set w. isSpace c \<Longrightarrow> collapseTagGaps w = w"
  by (induction w) (auto simp: collapse_keep)

lemma collapse_append_space:
  assumes w: "\<forall>c\<in>set w. isSpace c"
  shows "collapseTagGaps (u @ w) = collapseTagGaps u @ w"
proof (induction "length u" arbitrary: u rule: less_induct)
  case less
  show ?case
  proof (cases u)
    case Nil
    then show ?thesis using collapse_all_space [OF w] by simp
  next
    case (Cons c cs)
    show ?thesis
    proof (cases "\<forall>x\<in>set cs. isSpace x")
      case True
      then have d1: "dropWhile isSpace cs = []" and d2: "dropWhile isSpace (cs @ w) = []"
        using w by auto
      have "\<not> gapAt c cs" "\<not> gapAt c (cs @ w)" unfolding gapAt_iff d1 d2 by simp_all
      then show ?thesis using less [of cs] Cons by (simp add: collapse_keep)
    next
      case False
      then obtain x where x: "x \<in> set cs" "\<not> isSpace x" by blast
      have dw: "dropWhile isSpace (cs @ w) = dropWhile isSpace cs @ w"
        using x by (rule dropWhile_append1)
      have tw: "takeWhile isSpace (cs @ w) = takeWhile isSpace cs"
        using x by (rule takeWhile_append1)
      have ne: "dropWhile isSpace cs \<noteq> []" using False by simp
      have g: "gapAt c (cs @ w) = gapAt c cs"
        using ne by (cases "dropWhile isSpace cs") (auto simp: gapAt_iff dw tw)
      show ?thesis
      proof (cases "gapAt c cs")
        case True
        then obtain ds where c: "c = CHR ''>''" and t: "takeWhile isSpace cs \<noteq> []"
          and d: "dropWhile isSpace cs = CHR ''<'' # ds" by (auto simp: gapAt_iff)
        have t': "takeWhile isSpace (cs @ w) \<noteq> []" using t tw by simp
        have d': "dropWhile isSpace (cs @ w) = CHR ''<'' # (ds @ w)" using d dw by simp
        have "length ds < length u"
          using length_dropWhile_le [of isSpace cs] d Cons by simp
        then have "collapseTagGaps (ds @ w) = collapseTagGaps ds @ w" using less by blast
        then show ?thesis using Cons c collapse_gap [OF t d] collapse_gap [OF t' d'] by simp
      next
        case False
        then show ?thesis using g less [of cs] Cons by (simp add: collapse_keep)
      qed
    qed
  qed
qed

lemma collapse_last: "u \<noteq> [] \<Longrightarrow> collapseTagGaps u \<noteq> [] \<and> last (collapseTagGaps u) = last u"
proof (induction "length u" arbitrary: u rule: less_induct)
  case less
  then obtain c cs where u: "u = c # cs" by (cases u) auto
  show ?case
  proof (cases "gapAt c cs")
    case False
    then show ?thesis using less(1) [of cs] u by (cases cs) (auto simp: collapse_keep)
  next
    case True
    then obtain ds where c: "c = CHR ''>''" and t: "takeWhile isSpace cs \<noteq> []"
      and d: "dropWhile isSpace cs = CHR ''<'' # ds" by (auto simp: gapAt_iff)
    have "cs = takeWhile isSpace cs @ CHR ''<'' # ds" using d by (metis takeWhile_dropWhile_id)
    then have l: "last u = last (CHR ''<'' # ds)" using u by (metis last_ConsR last_appendR list.distinct(1) append_is_Nil_conv)
    have "length ds < length u"
      using length_dropWhile_le [of isSpace cs] d u by simp
    then have "ds \<noteq> [] \<Longrightarrow> collapseTagGaps ds \<noteq> [] \<and> last (collapseTagGaps ds) = last ds"
      using less(1) by blast
    then show ?thesis using l u c collapse_gap [OF t d] by (cases ds) auto
  qed
qed

lemma rstrip_decomp: "\<exists>w. (\<forall>c\<in>set w. isSpace c) \<and> s = rstrip s @ w"
proof -
  have "rev s = takeWhile isSpace (rev s) @ dropWhile isSpace (rev s)" by simp
  then have "s = rev (dropWhile isSpace (rev s)) @ rev (takeWhile isSpace (rev s))"
    by (metis rev_append rev_rev_ident)
  moreover have "\<forall>c\<in>set (rev (takeWhile isSpace (rev s))). isSpace c"
    by (auto dest: set_takeWhileD)
  ultimately show ?thesis unfolding rstrip_def by blast
qed

lemma rstrip_last: "rstrip s \<noteq> [] \<Longrightarrow> \<not> isSpace (last (rstrip s))"
  unfolding rstrip_def
  by (cases "dropWhile isSpace (rev s)") (auto simp: last_rev dest: dropWhile_eq_Cons_conv [THEN iffD1])

lemma rstrip_fix: "u = [] \<or> \<not> isSpace (last u) \<Longrightarrow> rstrip u = u"
  unfolding rstrip_def by (cases u rule: rev_cases) auto

lemma rstrip_append_space: "\<forall>c\<in>set w. isSpace c \<Longrightarrow> rstrip (u @ w) = rstrip u"
proof -
  assume "\<forall>c\<in>set w. isSpace c"
  then have "dropWhile isSpace (rev w @ rev u) = dropWhile isSpace (rev u)"
    by (intro dropWhile_append2) auto
  then show ?thesis by (simp add: rstrip_def)
qed

lemma rstrip_collapse: "rstrip (collapseTagGaps s) = collapseTagGaps (rstrip s)"
proof -
  obtain w where w: "\<forall>c\<in>set w. isSpace c" and s: "s = rstrip s @ w"
    using rstrip_decomp by blast
  have "collapseTagGaps s = collapseTagGaps (rstrip s) @ w"
    using collapse_append_space [OF w, of "rstrip s"] s by simp
  then have "rstrip (collapseTagGaps s) = rstrip (collapseTagGaps (rstrip s))"
    using rstrip_append_space [OF w] by simp
  also have "\<dots> = collapseTagGaps (rstrip s)"
  proof (rule rstrip_fix)
    show "collapseTagGaps (rstrip s) = [] \<or> \<not> isSpace (last (collapseTagGaps (rstrip s)))"
      using collapse_last [of "rstrip s"] rstrip_last [of s] by (cases "rstrip s = []") auto
  qed
  finally show ?thesis .
qed

lemma trim_rstrip: "trim s = rstrip (dropWhile isSpace s)"
  by (simp add: trim_def rstrip_def)

lemma trim_collapse: "trim (collapseTagGaps s) = collapseTagGaps (trim s)"
  by (simp add: trim_rstrip dropWhile_collapse rstrip_collapse)

lemma dropWhile_rstrip: "dropWhile isSpace (rstrip s) = rstrip (dropWhile isSpace s)"
proof (cases "\<forall>c\<in>set s. isSpace c")
  case True
  then have a: "dropWhile isSpace s = []" and b: "dropWhile isSpace (rev s) = []" by auto
  show ?thesis unfolding rstrip_def a b by simp
next
  case False
  obtain w where w: "\<forall>c\<in>set w. isSpace c" and s: "s = rstrip s @ w"
    using rstrip_decomp by blast
  from False s w obtain x where x: "x \<in> set (rstrip s)" "\<not> isSpace x"
    by (metis Un_iff set_append)
  have "dropWhile isSpace s = dropWhile isSpace (rstrip s) @ w"
    using dropWhile_append1 [of x "rstrip s" isSpace w] x s by simp
  then have "rstrip (dropWhile isSpace s) = rstrip (dropWhile isSpace (rstrip s))"
    using rstrip_append_space [OF w] by simp
  also have "\<dots> = dropWhile isSpace (rstrip s)"
  proof (rule rstrip_fix)
    have ne: "dropWhile isSpace (rstrip s) \<noteq> []" using x by auto
    then have "last (dropWhile isSpace (rstrip s)) = last (rstrip s)"
      by (metis last_appendR takeWhile_dropWhile_id)
    moreover have "rstrip s \<noteq> []" using x by auto
    ultimately show "dropWhile isSpace (rstrip s) = [] \<or> \<not> isSpace (last (dropWhile isSpace (rstrip s)))"
      using rstrip_last [of s] by simp
  qed
  finally show ?thesis by simp
qed

lemma trim_idem: "trim (trim s) = trim s"
proof -
  have "rstrip (rstrip t) = rstrip t" for t
    using rstrip_fix [of "rstrip t"] rstrip_last [of t] by blast
  moreover have "dropWhile isSpace (dropWhile isSpace t) = dropWhile isSpace t" for t
    by (simp add: dropWhile_idem)
  ultimately show ?thesis by (simp add: trim_rstrip dropWhile_rstrip)
qed

text \<open>
  C9: minify is idempotent on its own output: for every string \<open>x\<close>,
  \<open>minifyHTML (minifyHTML x) = minifyHTML x\<close>.
\<close>

theorem minifyHTML_idempotent: "minifyHTML (minifyHTML x) = minifyHTML x"
proof -
  let ?m = "minifyHTML x"
  have "set ?m \<subseteq> set (stripNewlines x)"
    unfolding minifyHTML_def using set_trim set_collapseTagGaps by blast
  then have "CHR 0x0A \<notin> set ?m" using stripNewlines_no_newline by blast
  then have "stripNewlines ?m = ?m" by (rule stripNewlines_id)
  then have "minifyHTML ?m = trim (collapseTagGaps ?m)" by (simp add: minifyHTML_def)
  also have "\<dots> = trim (trim (collapseTagGaps (collapseTagGaps (stripNewlines x))))"
    by (simp add: minifyHTML_def trim_collapse)
  also have "\<dots> = ?m" by (simp add: minifyHTML_def collapse_idem trim_idem)
  finally show ?thesis .
qed

section \<open>Properties of beautify\<close>

lemma emitLines_shape:
  "0 \<le> indent \<Longrightarrow>
   \<exists>ks. length ks = length tokens \<and>
        emitLines tokens indent lines =
          Inr (lines @ map (\<lambda>(k, t). concat (replicate k ''  '') @ t) (zip ks tokens))"
proof (induction tokens arbitrary: indent lines)
  case Nil
  then show ?case by simp
next
  case (Cons token tokens)
  define next_indent where "next_indent =
    (if startsWith token ''</'' then max 0 (indent - 1)
     else if startsWith token ''<'' then
       (if \<not> (endsWith token ''/>'' \<or> toLowerCase (replaceTagPattern token) \<in> set VOID_ELEMENTS)
           \<and> \<not> startsWith token ''<!'' then indent + 1 else indent)
     else indent)"
  define here where "here = (if startsWith token ''</'' then max 0 (indent - 1) else indent)"
  have n0: "0 \<le> next_indent"
    using Cons.prems by (auto simp: next_indent_def)
  have step: "emitLines (token # tokens) indent lines
      = emitLines tokens next_indent (lines @ [concat (replicate (nat here) ''  '') @ token])"
    using Cons.prems by (auto simp: here_def next_indent_def repeat_def Let_def)
  obtain ks where ks: "length ks = length tokens"
    and e: "emitLines tokens next_indent (lines @ [concat (replicate (nat here) ''  '') @ token])
        = Inr ((lines @ [concat (replicate (nat here) ''  '') @ token])
               @ map (\<lambda>(k, t). concat (replicate k ''  '') @ t) (zip ks tokens))"
    using Cons.IH [OF n0] by blast
  show ?case
    by (rule exI [of _ "nat here # ks"]) (simp add: step e ks del: emitLines.simps)
qed

text \<open>
  C10: \<open>beautifyHTML\<close> is total and never fails: for every input it returns the tokens, one
  per line, each behind \<open>k\<close> copies of the two-space unit for a natural number \<open>k\<close>. Closing
  tags beyond the opening ones leave the level at zero: \<open></b></b><i>x\<close> gives the two
  closing tags at level 0, then \<open><i>\<close> at level 0 and \<open>x\<close> at level 1.
\<close>

theorem beautifyHTML_total_nonneg_indent:
  "(\<exists>ks. length ks = length (tokenize html) \<and>
         beautifyHTML html =
           Inr (joinLines (map (\<lambda>(k, t). concat (replicate k ''  '') @ t)
                             (zip ks (tokenize html)))))
   \<and> beautifyHTML ''</b></b><i>x''
       = Inr (''</b>'' @ [CHR 0x0A] @ ''</b>'' @ [CHR 0x0A] @ ''<i>'' @ [CHR 0x0A] @ ''  x'')"
proof
  obtain ks where "length ks = length (tokenize html)"
    and "emitLines (tokenize html) 0 [] =
          Inr ([] @ map (\<lambda>(k, t). concat (replicate k ''  '') @ t) (zip ks (tokenize html)))"
    using emitLines_shape [of 0 "tokenize html" "[]"] by auto
  then show "\<exists>ks. length ks = length (tokenize html) \<and>
         beautifyHTML html =
           Inr (joinLines (map (\<lambda>(k, t). concat (replicate k ''  '') @ t)
                             (zip ks (tokenize html))))"
    by (auto simp: beautifyHTML_def)
  show "beautifyHTML ''</b></b><i>x''
       = Inr (''</b>'' @ [CHR 0x0A] @ ''</b>'' @ [CHR 0x0A] @ ''<i>'' @ [CHR 0x0A] @ ''  x'')"
    by code_simp
qed

section \<open>Properties of the auto-linker\<close>

text \<open>
  C7: the text node \<open>Call 0412 345 678 or email a@b.com\<close> is replaced by, in order, the text
  \<open>Call \<close>, a link to \<open>tel:0412345678\<close> around \<open>0412 345 678\<close>, the text \<open> or email \<close>, and a
  link to \<open>mailto:a@b.com\<close> around \<open>a@b.com\<close>; this also holds for the text node inside a
  paragraph passed through the whole of \<open>cleanTree\<close>.
\<close>

theorem autoLink_call_example:
  "autoLink False (Text ''Call 0412 345 678 or email a@b.com'')
     = [Text ''Call '',
        Element ''A'' [(''href'', ''tel:0412345678'')] [Text ''0412 345 678''],
        Text '' or email '',
        Element ''A'' [(''href'', ''mailto:a@b.com'')] [Text ''a@b.com'']]
   \<and> cleanTree [Element ''P'' [] [Text ''Call 0412 345 678 or email a@b.com'']]
     = [Element ''P'' []
         [Text ''Call '',
          Element ''A'' [(''href'', ''tel:0412345678'')] [Text ''0412 345 678''],
          Text '' or email '',
          Element ''A'' [(''href'', ''mailto:a@b.com'')] [Text ''a@b.com'']]]"
  by code_simp

subsection \<open>The shape of phone targets\<close>

lemma matchAtoms_chars:
  "matchAtoms as s = Some n \<Longrightarrow>
   n \<le> length s \<and> (\<forall>c \<in> set (take n s). \<exists>a \<in> set as. atomPred a c)"
proof (induction as s arbitrary: n rule: matchAtoms.induct)
  case (1 s)
  then show ?case by simp
next
  case (2 p as)
  then show ?case by simp
next
  case (3 p as c cs)
  then show ?case by (fastforce split: if_splits)
next
  case (4 p as)
  then show ?case by auto
next
  case (5 p as c cs)
  then show ?case by (fastforce split: if_splits option.splits)
next
  case (6 p m as)
  then show ?case by (auto split: if_splits)
next
  case (7 p m as c cs)
  then show ?case by (fastforce split: if_splits option.splits)
qed

lemma matchAtoms_lit_Cons:
  "matchAtoms (lit x # as) s = Some n \<Longrightarrow>
   \<exists>s' n'. s = x # s' \<and> n = Suc n' \<and> matchAtoms as s' = Some n'"
  by (cases s) (auto simp: lit_def split: if_splits)

lemma strip_phoneChars:
  "\<forall>c \<in> set s. phoneChar c \<Longrightarrow> \<forall>c \<in> set (stripPhoneSeparators s). isDigit c"
  by (auto simp: stripPhoneSeparators_def phoneChar_def)

lemma isDigit_lits [simp]:
  "isDigit CHR ''0''" "isDigit CHR ''1''" "isDigit CHR ''2''" "isDigit CHR ''3''" "isDigit CHR ''4''"
  "isDigit CHR ''6''" "isDigit CHR ''7''" "isDigit CHR ''8''"
  by (simp_all add: isDigit_def)

lemma plus_kept: "stripPhoneSeparators (CHR ''+'' # s) = CHR ''+'' # stripPhoneSeparators s"
  by (simp add: stripPhoneSeparators_def isSpace_def)


lemma national_alt:
  assumes m: "matchAtoms as s = Some n" and p: "\<forall>a \<in> set as. \<forall>c. atomPred a c \<longrightarrow> phoneChar c"
  shows "\<forall>c \<in> set (stripPhoneSeparators (take n s)). isDigit c"
proof (rule strip_phoneChars)
  show "\<forall>c\<in>set (take n s). phoneChar c"
    using matchAtoms_chars [OF m] p by blast
qed

lemma phone_match_shape:
  assumes "matchAlternatives PHONE_REGEX s = Some n"
  shows "(\<forall>c \<in> set (stripPhoneSeparators (take n s)). isDigit c)
       \<or> (\<exists>d. stripPhoneSeparators (take n s) = CHR ''+'' # d \<and> (\<forall>c \<in> set d. isDigit c))"
proof -
  let ?intl = "[lit CHR ''6'', lit CHR ''1'', Opt isSpace, digit, sep,
        digit, digit, digit, digit, sep, digit, digit, digit, digit]"
  have pc: "\<forall>a \<in> set ?intl. \<forall>c. atomPred a c \<longrightarrow> phoneChar c"
    by (auto simp: lit_def digit_def sep_def phoneChar_def)
  show ?thesis
  proof (cases "matchAtoms (lit CHR ''+'' # ?intl) s")
    case (Some k)
    then have nk: "n = k" using assms by (simp add: PHONE_REGEX_def)
    from matchAtoms_lit_Cons [OF Some] obtain s' n' where
      s: "s = CHR ''+'' # s'" and k: "k = Suc n'" and m: "matchAtoms ?intl s' = Some n'" by blast
    have "\<forall>c \<in> set (stripPhoneSeparators (take n' s')). isDigit c"
      using national_alt [OF m pc] .
    then show ?thesis using s k nk by (simp add: plus_kept)
  next
    case None
    then have rest: "matchAlternatives (tl PHONE_REGEX) s = Some n"
      using assms by (simp add: PHONE_REGEX_def)
    have "\<forall>as \<in> set (tl PHONE_REGEX). \<forall>a \<in> set as. \<forall>c. atomPred a c \<longrightarrow> phoneChar c"
      by (auto simp: PHONE_REGEX_def lit_def digit_def sep_def phoneChar_def)
    moreover have "matchAlternatives alts s = Some n \<Longrightarrow> \<exists>as \<in> set alts. matchAtoms as s = Some n" for alts
      by (induction alts) (auto split: option.splits)
    ultimately obtain as where "matchAtoms as s = Some n"
      and "\<forall>a \<in> set as. \<forall>c. atomPred a c \<longrightarrow> phoneChar c" using rest by blast
    then show ?thesis using national_alt by blast
  qed
qed

lemma matchAllFrom_sound:
  "(i, mt, g1) \<in> set (matchAllFrom t j) \<Longrightarrow>
   \<exists>n. matchCombined (drop i t) = Some (n, g1) \<and> mt = take n (drop i t)"
proof (induction t j rule: matchAllFrom.induct)
  case (1 txt0 j)
  show ?case
  proof (cases "length txt0 < j")
    case True
    with 1(3) show ?thesis by simp
  next
    case False
    show ?thesis
    proof (cases "matchCombined (drop j txt0)")
      case None
      with False 1(1) 1(3) show ?thesis by simp
    next
      case (Some a)
      obtain n g where a: "a = (n, g)" by (cases a)
      from 1(3) False Some a have "(i, mt, g1) = (j, take n (drop j txt0), g)
          \<or> (i, mt, g1) \<in> set (matchAllFrom txt0 (if n = 0 then j + 1 else j + n))"
        by (simp del: matchAllFrom.simps add: matchAllFrom.simps [of txt0 j])
      then show ?thesis
      proof
        assume "(i, mt, g1) = (j, take n (drop j txt0), g)"
        with Some a show ?thesis by simp
      next
        assume "(i, mt, g1) \<in> set (matchAllFrom txt0 (if n = 0 then j + 1 else j + n))"
        with 1(2) [OF False Some a [symmetric]] show ?thesis by simp
      qed
    qed
  qed
qed

lemma buildFragment_elems:
  "x \<in> set (buildFragment t ms li frag) \<Longrightarrow>
   x \<in> set frag \<or> (\<exists>s. x = Text s) \<or> (\<exists>i mt g1. (i, mt, g1) \<in> set ms \<and> x = makeAnchor mt g1)"
proof (induction t ms li frag rule: buildFragment.induct)
  case (1 txt0 lastIndex fragment)
  then show ?case by (auto split: if_splits)
next
  case (2 txt0 matchIndex matchText g1 matches lastIndex fragment)
  from 2(2) have "x \<in> set (buildFragment txt0 matches (matchIndex + length matchText)
       ((if lastIndex < matchIndex then fragment @ [Text (substring txt0 lastIndex matchIndex)]
         else fragment) @ [makeAnchor matchText g1]))" by simp
  from 2(1) [OF this] show ?case by (auto split: if_splits)
qed

lemma buildFragment_keeps: "set frag \<subseteq> set (buildFragment t ms li frag)"
  by (induction t ms li frag rule: buildFragment.induct) auto

lemma matchAlternatives_Some:
  "matchAlternatives alts s = Some n \<Longrightarrow> \<exists>as \<in> set alts. matchAtoms as s = Some n"
  by (induction alts) (auto split: option.splits)

lemma phone_match_pos:
  assumes "matchAlternatives PHONE_REGEX s = Some n"
  shows "0 < n \<and> n \<le> length s"
proof -
  from matchAlternatives_Some [OF assms] obtain as where
    as: "as \<in> set PHONE_REGEX" and m: "matchAtoms as s = Some n" by blast
  from as obtain c rest where "as = lit c # rest" by (auto simp: PHONE_REGEX_def)
  with m matchAtoms_lit_Cons [of c rest s n] have "0 < n" by auto
  with matchAtoms_chars [OF m] show ?thesis by simp
qed

lemma many_match_pos: "matchAtoms (Many p (Suc m) # as) s = Some n \<Longrightarrow> 0 < n"
  by (cases s) (auto split: if_splits option.splits)

lemma email_match_pos:
  assumes "matchAtoms EMAIL_REGEX s = Some n"
  shows "0 < n \<and> n \<le> length s"
proof -
  have "0 < n" using assms many_match_pos unfolding EMAIL_REGEX_def One_nat_def by blast
  with matchAtoms_chars [OF assms] show ?thesis by simp
qed

lemma matchCombined_pos: "matchCombined s = Some (n, g) \<Longrightarrow> 0 < n \<and> n \<le> length s"
  using phone_match_pos email_match_pos
  by (auto simp: matchCombined_def split: option.splits)

lemma match_text_nonempty:
  assumes "(i, mt, g) \<in> set (matchAllFrom t j)"
  shows "mt \<noteq> []"
proof -
  from matchAllFrom_sound [OF assms] obtain n where
    c: "matchCombined (drop i t) = Some (n, g)" and mt: "mt = take n (drop i t)" by blast
  from matchCombined_pos [OF c] show ?thesis unfolding mt by auto
qed

lemma buildFragment_contains:
  "(i, mt, g) \<in> set ms \<Longrightarrow> makeAnchor mt g \<in> set (buildFragment t ms li frag)"
proof (induction t ms li frag rule: buildFragment.induct)
  case (1 txt0 lastIndex fragment)
  then show ?case by simp
next
  case (2 txt0 matchIndex matchText g1 matches lastIndex fragment)
  show ?case
  proof (cases "(i, mt, g) = (matchIndex, matchText, g1)")
    case True
    then show ?thesis
      unfolding buildFragment.simps by (intro subsetD [OF buildFragment_keeps]) simp
  next
    case False
    with 2(2) have "(i, mt, g) \<in> set matches" by auto
    from 2(1) [OF this] show ?thesis by simp
  qed
qed

lemma telDigits_iff:
  "telDigits d \<longleftrightarrow> (\<forall>c \<in> set d. isDigit c) \<or> (\<exists>ds. d = CHR ''+'' # ds \<and> (\<forall>c \<in> set ds. isDigit c))"
  by (cases d) (auto simp: telDigits_def list_all_iff)

lemma phone_match_telDigits:
  assumes "(i, mt, True) \<in> set (matchAllFrom t j)"
  shows "telDigits (stripPhoneSeparators mt)"
proof -
  from matchAllFrom_sound [OF assms] obtain n where
    c: "matchCombined (drop i t) = Some (n, True)" and mt: "mt = take n (drop i t)" by blast
  from c have "matchAlternatives PHONE_REGEX (drop i t) = Some n"
    by (auto simp: matchCombined_def split: option.splits)
  from phone_match_shape [OF this] show ?thesis by (simp add: telDigits_iff mt)
qed

lemma makeAnchor_match:
  "mt \<noteq> [] \<Longrightarrow>
   makeAnchor mt g = Element ''A''
       [(''href'', if g then ''tel:'' @ stripPhoneSeparators mt else ''mailto:'' @ mt)] [Text mt]"
  by (simp add: makeAnchor_def)

text \<open>
  C8 (amended): every phone match of the auto-linker in a text node (a match of the combined
  pattern in which the phone group took part) becomes a link around the matched text whose
  target is \<open>tel:\<close> followed by the matched text without white space, dashes and
  parentheses; that rest consists of decimal digits only, or, for the international form, of
  the leading \<open>+\<close> of the match and then decimal digits only. Conversely every element that
  the auto-linker puts in place of the text node is such a link for one of the matches, with
  a \<open>tel:\<close> target for a phone match and a \<open>mailto:\<close> target for an email match.
\<close>

theorem tel_href_shape:
  "((i, mt, True) \<in> set (matchAllFrom t 0) \<longrightarrow>
      Element ''A'' [(''href'', ''tel:'' @ stripPhoneSeparators mt)] [Text mt]
        \<in> set (autoLink False (Text t))
      \<and> telDigits (stripPhoneSeparators mt))
   \<and> (Element tagName attrs kids \<in> set (autoLink False (Text t)) \<longrightarrow>
      (\<exists>j m g. (j, m, g) \<in> set (matchAllFrom t 0) \<and> tagName = ''A'' \<and> kids = [Text m] \<and>
         attrs = [(''href'', if g then ''tel:'' @ stripPhoneSeparators m else ''mailto:'' @ m)] \<and>
         (g \<longrightarrow> telDigits (stripPhoneSeparators m))))"
proof (intro conjI impI)
  assume m: "(i, mt, True) \<in> set (matchAllFrom t 0)"
  then have ne: "matchAllFrom t 0 \<noteq> []" by auto
  have "makeAnchor mt True \<in> set (buildFragment t (matchAllFrom t 0) 0 [])"
    using buildFragment_contains [OF m] .
  then show "Element ''A'' [(''href'', ''tel:'' @ stripPhoneSeparators mt)] [Text mt]
        \<in> set (autoLink False (Text t))"
    using ne makeAnchor_match [OF match_text_nonempty [OF m], of True]
    by (simp add: linkText_def Let_def)
  show "telDigits (stripPhoneSeparators mt)" using phone_match_telDigits [OF m] .
next
  assume e: "Element tagName attrs kids \<in> set (autoLink False (Text t))"
  then have "matchAllFrom t 0 \<noteq> []"
    and "Element tagName attrs kids \<in> set (buildFragment t (matchAllFrom t 0) 0 [])"
    by (auto simp: linkText_def Let_def split: if_splits)
  then obtain j m g where m: "(j, m, g) \<in> set (matchAllFrom t 0)"
    and a: "Element tagName attrs kids = makeAnchor m g"
    using buildFragment_elems by fastforce
  have "g \<longrightarrow> telDigits (stripPhoneSeparators m)"
  proof
    assume g
    with m have "(j, m, True) \<in> set (matchAllFrom t 0)" by simp
    then show "telDigits (stripPhoneSeparators m)" by (rule phone_match_telDigits)
  qed
  moreover have "tagName = ''A'' \<and> kids = [Text m] \<and>
         attrs = [(''href'', if g then ''tel:'' @ stripPhoneSeparators m else ''mailto:'' @ m)]"
    using a makeAnchor_match [OF match_text_nonempty [OF m], of g] by simp
  ultimately show "\<exists>j m g. (j, m, g) \<in> set (matchAllFrom t 0) \<and> tagName = ''A'' \<and> kids = [Text m] \<and>
         attrs = [(''href'', if g then ''tel:'' @ stripPhoneSeparators m else ''mailto:'' @ m)] \<and>
         (g \<longrightarrow> telDigits (stripPhoneSeparators m))"
    using m by blast
qed

theorem tel_href_shape_witness:
  "(4, ''(02) 9999-1234'', True) \<in> set (matchAllFrom ''Fax (02) 9999-1234'' 0)
   \<and> Element ''A'' [(''href'', ''tel:'' @ stripPhoneSeparators ''(02) 9999-1234'')] [Text ''(02) 9999-1234'']
        \<in> set (autoLink False (Text ''Fax (02) 9999-1234''))
   \<and> stripPhoneSeparators ''(02) 9999-1234'' = ''0299991234''
   \<and> telDigits (stripPhoneSeparators ''(02) 9999-1234'')
   \<and> Element ''A'' [(''href'', ''tel:0299991234'')] [Text ''(02) 9999-1234'']
        \<in> set (autoLink False (Text ''Fax (02) 9999-1234''))
   \<and> telDigits ''0299991234''"
proof -
  let ?mt = "''(02) 9999-1234''" and ?t = "''Fax (02) 9999-1234''"
  note inst = tel_href_shape [of 4 ?mt ?t "''A''" "[(''href'', ''tel:0299991234'')]" "[Text ?mt]"]
  have a: "(4, ?mt, True) \<in> set (matchAllFrom ?t 0)" by code_simp
  have b: "stripPhoneSeparators ?mt = ''0299991234''" by code_simp
  have c: "Element ''A'' [(''href'', ''tel:0299991234'')] [Text ?mt] \<in> set (autoLink False (Text ?t))"
    by code_simp
  from inst a have p1: "Element ''A'' [(''href'', ''tel:'' @ stripPhoneSeparators ?mt)] [Text ?mt]
        \<in> set (autoLink False (Text ?t)) \<and> telDigits (stripPhoneSeparators ?mt)" by blast
  from inst c obtain j m g where m: "[Text ?mt] = [Text m]"
    and h: "[(''href'', ''tel:0299991234'')]
            = [(''href'', if g then ''tel:'' @ stripPhoneSeparators m else ''mailto:'' @ m)]"
    and g: "g \<longrightarrow> telDigits (stripPhoneSeparators m)" by blast
  from h have "g" by (cases g) simp_all
  with g m b have p2: "telDigits ''0299991234''" by simp
  from a b c p1 p2 show ?thesis by blast
qed

text \<open>
  C8 as stated fails: the \<open>+\<close> of the international form is not stripped, so the target
  of \<open>+61 4 1234 5678\<close> is \<open>tel:+61412345678\<close>.
\<close>

theorem tel_href_international_counterexample:
  "autoLink False (Text ''+61 4 1234 5678'')
     = [Element ''A'' [(''href'', ''tel:+61412345678'')] [Text ''+61 4 1234 5678'']]
   \<and> \<not> list_all isDigit (drop 4 ''tel:+61412345678'')
   \<and> telDigits (drop 4 ''tel:+61412345678'')"
  by code_simp

section \<open>Properties of processNode\<close>

lemma getAttribute_removeAttribute [simp]: "getAttribute (removeAttribute attrs n) n = None"
  by (induction attrs) (auto simp: getAttribute_def removeAttribute_def)

lemma getAttribute_removeAttribute_other:
  "getAttribute attrs n = None \<Longrightarrow> getAttribute (removeAttribute attrs m) n = None"
  by (induction attrs) (auto simp: getAttribute_def removeAttribute_def split: if_splits)

lemma getAttribute_filter_None:
  "getAttribute attrs n = None \<Longrightarrow> getAttribute (filter P attrs) n = None"
  by (induction attrs) (auto simp: getAttribute_def split: if_splits)

lemma style_stripped: "getAttribute (stripAttributes attrs) ''style'' = None"
  by (simp add: stripAttributes_def attrsToRemove_def Let_def
      getAttribute_removeAttribute_other getAttribute_filter_None)

lemma regexTest_Nil_bold: "\<not> isBoldStyle []"
  by (simp add: isBoldStyle_def toLowerCase_def lit_def)

lemma regexTest_Nil_italic: "\<not> isItalicStyle []"
  by (simp add: isItalicStyle_def toLowerCase_def lit_def)

lemma checkForHeadingMarker_not_P: "tagName \<noteq> ''P'' \<Longrightarrow> checkForHeadingMarker tagName kids = None"
  by (simp add: checkForHeadingMarker_def)

lemma processNode_template [simp]:
  "processNode (Template attrs content) = [Template (stripAttributes attrs) content]"
  by (simp add: Let_def checkForHeadingMarker_not_P)

declare processNode.simps(3) [simp del]

lemma processNode_span:
  "processNode (Element ''SPAN'' attrs kids) = concat (map processNode kids)"
  by (simp add: Let_def checkForHeadingMarker_not_P style_stripped
      regexTest_Nil_bold regexTest_Nil_italic)

text \<open>
  C1 (fails on the code): a span is never turned into \<open>strong\<close> or \<open>em\<close>. The \<open>style\<close>
  attribute is removed before it is read, so every span is unwrapped; both example inputs
  come out as the bare text \<open>Note\<close>.
\<close>

theorem span_bold_is_unwrapped:
  "processNode (Element ''SPAN'' attrs kids) = concat (map processNode kids)
   \<and> cleanHTML [Element ''SPAN'' [(''style'', ''font-weight:bold'')] [Text ''Note'']] = ''Note''
   \<and> cleanHTML [Element ''SPAN'' [(''style'', ''font-weight:bold;font-style:italic'')] [Text ''Note'']]
       = ''Note''"
proof (intro conjI)
  show "processNode (Element ''SPAN'' attrs kids) = concat (map processNode kids)"
    by (rule processNode_span)
  show "cleanHTML [Element ''SPAN'' [(''style'', ''font-weight:bold'')] [Text ''Note'']] = ''Note''"
    by code_simp
  show "cleanHTML [Element ''SPAN'' [(''style'', ''font-weight:bold;font-style:italic'')] [Text ''Note'']]
       = ''Note''"
    by code_simp
qed

section \<open>Heading markers\<close>

lemma createElement_h:
  "createElement ''h1'' ks = Element ''H1'' [] ks"
  "createElement ''h2'' ks = Element ''H2'' [] ks"
  "createElement ''h3'' ks = Element ''H3'' [] ks"
  "createElement ''h4'' ks = Element ''H4'' [] ks"
  by (simp_all add: createElement_def upperChar_def)

text \<open>
  C6: \<open><p>H2: Pricing</p>\<close> becomes \<open><h2>Pricing</h2>\<close>, and \<open><p>h2: Pricing</p>\<close> is
  kept as it is. In general a paragraph whose trimmed text starts with \<open>H1:\<close>, \<open>H2:\<close>,
  \<open>H3:\<close> or \<open>H4:\<close> is replaced by the heading of that level holding the trimmed rest of
  the text, and a paragraph whose trimmed text starts with a lower-case \<open>h\<close> is not
  converted.
\<close>

theorem heading_marker_conversion:
  "cleanHTML [Element ''P'' [] [Text ''H2: Pricing'']] = ''<h2>Pricing</h2>''
   \<and> cleanHTML [Element ''P'' [] [Text ''h2: Pricing'']] = ''<p>h2: Pricing</p>''
   \<and> (\<forall>d \<in> set ''1234''.
        startsWith (trim (concat (map textContent kids))) (''H'' @ [d] @ '':'') \<longrightarrow>
        checkForHeadingMarker ''P'' kids
          = Some (Element (''H'' @ [d]) []
                    (let headingText = trim (drop 3 (trim (concat (map textContent kids))))
                     in if headingText = [] then [] else [Text headingText])))
   \<and> (startsWith (trim (concat (map textContent kids))) ''h'' \<longrightarrow>
        checkForHeadingMarker ''P'' kids = None)"
proof (intro conjI)
  show "cleanHTML [Element ''P'' [] [Text ''H2: Pricing'']] = ''<h2>Pricing</h2>''"
    by code_simp
  show "cleanHTML [Element ''P'' [] [Text ''h2: Pricing'']] = ''<p>h2: Pricing</p>''"
    by code_simp
  let ?t = "trim (concat (map textContent kids))"
  show "\<forall>d \<in> set ''1234''.
        startsWith ?t (''H'' @ [d] @ '':'') \<longrightarrow>
        checkForHeadingMarker ''P'' kids
          = Some (Element (''H'' @ [d]) []
                    (let headingText = trim (drop 3 ?t)
                     in if headingText = [] then [] else [Text headingText]))"
  proof (intro ballI impI)
    fix d assume d: "d \<in> set ''1234''" and s: "startsWith ?t (''H'' @ [d] @ '':'')"
    from s obtain r where r: "?t = ''H'' @ [d] @ '':'' @ r"
      by (metis append_take_drop_id startsWith_def append.assoc)
    from d show "checkForHeadingMarker ''P'' kids
          = Some (Element (''H'' @ [d]) []
                    (let headingText = trim (drop 3 ?t)
                     in if headingText = [] then [] else [Text headingText]))"
      by (auto simp: checkForHeadingMarker_def r startsWith_def createElement_h Let_def)
  qed
  show "startsWith ?t ''h'' \<longrightarrow> checkForHeadingMarker ''P'' kids = None"
  proof
    assume "startsWith ?t ''h''"
    then obtain r where r: "?t = ''h'' @ r"
      by (metis append_take_drop_id startsWith_def)
    show "checkForHeadingMarker ''P'' kids = None"
      by (simp add: checkForHeadingMarker_def r startsWith_def)
  qed
qed

theorem heading_marker_conversion_witness:
  "CHR ''3'' \<in> set ''1234''
   \<and> startsWith (trim (concat (map textContent [Text '' H3:  Terms ''])))  (''H'' @ [CHR ''3''] @ '':'') 
   \<and> checkForHeadingMarker ''P'' [Text '' H3:  Terms ''] = Some (Element ''H3'' [] [Text ''Terms''])
   \<and> startsWith (trim (concat (map textContent [Text ''h1: x'']))) ''h''
   \<and> checkForHeadingMarker ''P'' [Text ''h1: x''] = None"
proof -
  have a: "CHR ''3'' \<in> set ''1234''" by simp
  have b: "startsWith (trim (concat (map textContent [Text '' H3:  Terms ''])))  (''H'' @ [CHR ''3''] @ '':'')"
    by code_simp
  have c: "startsWith (trim (concat (map textContent [Text ''h1: x'']))) ''h''" by code_simp
  have e: "trim (drop 3 (trim (concat (map textContent [Text '' H3:  Terms ''])))) = ''Terms''"
    by code_simp
  from heading_marker_conversion [of "[Text '' H3:  Terms '']"] a b
  have "checkForHeadingMarker ''P'' [Text '' H3:  Terms '']
          = Some (Element (''H'' @ [CHR ''3'']) []
                    (let headingText = trim (drop 3 (trim (concat (map textContent [Text '' H3:  Terms '']))))
                     in if headingText = [] then [] else [Text headingText]))" by blast
  then have d: "checkForHeadingMarker ''P'' [Text '' H3:  Terms ''] = Some (Element ''H3'' [] [Text ''Terms''])"
    unfolding e by simp
  from heading_marker_conversion [of "[Text ''h1: x'']"] c
  have f: "checkForHeadingMarker ''P'' [Text ''h1: x''] = None" by blast
  from a b c d f show ?thesis by blast
qed

section \<open>Properties of cleanListItems\<close>

text \<open>
  C3 (fails on the code): when the scan of \<open>boldUpToColon\<close> meets a \<open>strong\<close> or \<open>b\<close> child
  it returns at once, and the children already moved into the new \<open>strong\<close> are lost. For
  the item \<open><li>foo<b>x</b>: bar</li>\<close> the text \<open>foo\<close> is gone afterwards.
\<close>

theorem boldUpToColon_abort_loses_nodes:
  "cleanListItem [Text ''foo'', Element ''B'' [] [Text ''x''], Text '': bar'']
     = [Element ''B'' [] [Text ''x''], Text '': bar'']
   \<and> cleanHTML [Element ''LI'' [] [Text ''foo'', Element ''B'' [] [Text ''x''], Text '': bar'']]
     = ''<li><b>x</b>: bar</li>''"
  by code_simp

section \<open>The attribute invariant\<close>

lemma createElement_simps [simp]:
  "createElement ''strong'' ks = Element ''STRONG'' [] ks"
  "createElement ''em'' ks = Element ''EM'' [] ks"
  "createElement ''h1'' ks = Element ''H1'' [] ks"
  "createElement ''h2'' ks = Element ''H2'' [] ks"
  "createElement ''h3'' ks = Element ''H3'' [] ks"
  "createElement ''h4'' ks = Element ''H4'' [] ks"
  by (simp_all add: createElement_def upperChar_def)


lemma removeAttribute_subset: "set (removeAttribute attrs n) \<subseteq> set attrs"
  by (auto simp: removeAttribute_def)

lemma removeAttribute_name: "(n, v) \<notin> set (removeAttribute attrs n)"
  by (auto simp: removeAttribute_def)

lemma distinct_removeAttribute: "distinct (map fst attrs) \<Longrightarrow> distinct (map fst (removeAttribute attrs n))"
  by (simp add: removeAttribute_def distinct_map_filter)

lemma stripAttributes_clean:
  assumes "distinct (map fst attrs)"
  shows "list_all cleanAttribute (stripAttributes attrs)"
proof -
  define a1 where "a1 = foldl removeAttribute attrs attrsToRemove"
  define a2 where "a2 = (if getAttribute a1 ''role'' = Some ''presentation''
                then removeAttribute a1 ''role'' else a1)"
  have s: "stripAttributes attrs = filter (\<lambda>(n, v). trim v \<noteq> []) a2"
    by (simp add: stripAttributes_def a1_def a2_def Let_def)
  have a1: "a1 = removeAttribute (removeAttribute (removeAttribute (removeAttribute attrs ''class'') ''style'') ''dir'') ''aria-level''"
    by (simp add: a1_def attrsToRemove_def)
  have d1: "distinct (map fst a1)" unfolding a1 by (intro distinct_removeAttribute assms)
  have n1: "fst a \<notin> set attrsToRemove" if "a \<in> set a1" for a
    using that unfolding a1 attrsToRemove_def removeAttribute_def by auto
  have sub: "set a2 \<subseteq> set a1" using removeAttribute_subset by (auto simp: a2_def)
  have r: "\<not> (fst a = ''role'' \<and> snd a = ''presentation'')" if "a \<in> set a2" for a
  proof (cases "getAttribute a1 ''role'' = Some ''presentation''")
    case True
    then show ?thesis using that removeAttribute_name [of "''role''" "snd a" a1]
      by (cases a) (auto simp: a2_def)
  next
    case False
    then show ?thesis using that d1 by (cases a) (auto simp: a2_def getAttribute_def)
  qed
  show ?thesis unfolding s list_all_iff cleanAttribute_def
    using n1 r sub by auto
qed




lemma attrsAll_simps [simp]:
  "attrsAll Q (Text t)" "attrsAll Q (Comment c)"
  "attrsAll Q (Element tagName attrs kids) = (Q attrs \<and> list_all (attrsAll Q) kids)"
  "attrsAll Q (Template attrs content) = Q attrs"
  by (simp_all add: attrsAll_def)













section \<open>The pruning invariant\<close>

declare matchAllFrom.simps [simp del]


lemma element_not_blank [simp]: "\<not> blankNode p (Element tagName attrs kids)"
  by (simp add: blankNode_def isSpace_def)










section \<open>Idempotence\<close>

lemma removeAttribute_absent: "n \<notin> fst ` set attrs \<Longrightarrow> removeAttribute attrs n = attrs"
  by (induction attrs) (auto simp: removeAttribute_def)

lemma stripAttributes_fixed:
  assumes "list_all cleanAttribute attrs"
  shows "stripAttributes attrs = attrs"
proof -
  have c: "\<And>a. a \<in> set attrs \<Longrightarrow> cleanAttribute a" using assms by (simp add: list_all_iff)
  have n: "m \<notin> fst ` set attrs" if "m \<in> set attrsToRemove" for m
    using c that by (auto simp: cleanAttribute_def)
  have a1: "foldl removeAttribute attrs attrsToRemove = attrs"
    using n by (simp add: attrsToRemove_def removeAttribute_absent)
  have r: "getAttribute attrs ''role'' \<noteq> Some ''presentation''"
  proof
    assume "getAttribute attrs ''role'' = Some ''presentation''"
    then have "(''role'', ''presentation'') \<in> set attrs"
      by (simp add: getAttribute_def map_of_SomeD)
    with c show False by (fastforce simp: cleanAttribute_def)
  qed
  have f: "filter (\<lambda>(n, v). trim v \<noteq> []) attrs = attrs"
    using c by (auto simp: cleanAttribute_def filter_id_conv)
  show ?thesis by (simp add: stripAttributes_def a1 r f Let_def)
qed

lemma heading_shape:
  "checkForHeadingMarker tagName kids = Some h \<Longrightarrow>
   \<exists>t ks. h = Element t [] ks \<and> t \<noteq> ''P'' \<and> t \<noteq> ''SPAN'' \<and> (ks = [] \<or> (\<exists>s. ks = [Text s]))"
  by (auto simp: checkForHeadingMarker_def Let_def split: if_splits)

lemma stripAttributes_Nil [simp]: "stripAttributes [] = []"
  by (simp add: stripAttributes_def attrsToRemove_def removeAttribute_def getAttribute_def)

lemma processNode_heading:
  assumes "t \<noteq> ''P''" "t \<noteq> ''SPAN''" "ks = [] \<or> (\<exists>s. ks = [Text s])"
  shows "processNode (Element t [] ks) = [Element t [] ks]"
  using assms by (auto simp: Let_def checkForHeadingMarker_not_P)

lemma concat_map_fixed: "(\<And>x. x \<in> set xs \<Longrightarrow> concat (map f (g x)) = g x) \<Longrightarrow>
   concat (map f (concat (map g xs))) = concat (map g xs)"
  by (induction xs) auto

lemma processNode_idem:
  "uniqueAttributes n \<Longrightarrow> concat (map processNode (processNode n)) = processNode n"
proof (induction n)
  case (Element tagName attrs kids)
  let ?kids1 = "concat (map processNode kids)"
  have u: "distinct (map fst attrs)" and uk: "\<And>k. k \<in> set kids \<Longrightarrow> uniqueAttributes k"
    using Element.prems by (auto simp: uniqueAttributes_def list_all_iff)
  have k: "concat (map processNode ?kids1) = ?kids1"
    by (rule concat_map_fixed) (use Element.IH uk in blast)
  show ?case
  proof (cases "checkForHeadingMarker tagName ?kids1")
    case (Some h)
    then have r: "processNode (Element tagName attrs kids) = [h]" by (simp add: Let_def)
    from heading_shape [OF Some] obtain t ks where "h = Element t [] ks" "t \<noteq> ''P''" "t \<noteq> ''SPAN''"
      "ks = [] \<or> (\<exists>s. ks = [Text s])" by blast
    then have "processNode h = [h]" using processNode_heading by blast
    then show ?thesis unfolding r by simp
  next
    case None
    show ?thesis
    proof (cases "tagName = ''SPAN''")
      case True
      then have r: "processNode (Element tagName attrs kids) = ?kids1"
        by (simp only: processNode_span)
      show ?thesis unfolding r by (rule k)
    next
      case False
      let ?a1 = "stripAttributes attrs"
      have r: "processNode (Element tagName attrs kids) = [Element tagName ?a1 ?kids1]"
        using None False by (simp add: Let_def)
      have "stripAttributes ?a1 = ?a1"
        by (rule stripAttributes_fixed) (rule stripAttributes_clean [OF u])
      then have "processNode (Element tagName ?a1 ?kids1) = [Element tagName ?a1 ?kids1]"
        using None False k by (simp add: Let_def)
      then show ?thesis unfolding r by simp
    qed
  qed
next
  case (Template attrs content)
  then have "distinct (map fst attrs)" by (simp add: uniqueAttributes_def)
  then have "stripAttributes (stripAttributes attrs) = stripAttributes attrs"
    by (intro stripAttributes_fixed stripAttributes_clean)
  then show ?case by simp
qed simp_all

lemma removeEmptyElements_idem:
  "concat (map removeEmptyElements (removeEmptyElements n)) = removeEmptyElements n"
proof (induction n)
  case (Element tagName attrs kids)
  let ?kids1 = "concat (map removeEmptyElements kids)"
  have k: "concat (map removeEmptyElements ?kids1) = ?kids1"
    by (rule concat_map_fixed) (use Element.IH in blast)
  show ?case
  proof (cases "removeEmptyElements (Element tagName attrs kids) = []")
    case True
    then show ?thesis by simp
  next
    case False
    then have r: "removeEmptyElements (Element tagName attrs kids) = [Element tagName attrs ?kids1]"
      by (auto simp: Let_def split: if_splits)
    have "removeEmptyElements (Element tagName attrs ?kids1) = [Element tagName attrs ?kids1]"
      using False k by (auto simp: Let_def split: if_splits)
    then show ?thesis unfolding r by simp
  qed
qed simp_all

text \<open>
  C2 (amended): on the document tree the first pass (\<open>processNode\<close>) and the third pass
  (\<open>removeEmptyElements\<close>) are each idempotent: applied to their own result they change
  nothing. (The attribute names of each element are distinct, as in every parsed tree.)
\<close>

theorem sanitizer_and_pruner_idempotent:
  assumes "list_all uniqueAttributes body"
  shows "concat (map processNode (concat (map processNode body))) = concat (map processNode body)
       \<and> concat (map removeEmptyElements (concat (map removeEmptyElements body)))
           = concat (map removeEmptyElements body)"
proof
  show "concat (map processNode (concat (map processNode body))) = concat (map processNode body)"
    by (rule concat_map_fixed) (use assms processNode_idem in \<open>auto simp: list_all_iff\<close>)
  show "concat (map removeEmptyElements (concat (map removeEmptyElements body)))
           = concat (map removeEmptyElements body)"
    by (rule concat_map_fixed) (rule removeEmptyElements_idem)
qed

theorem sanitizer_and_pruner_idempotent_witness:
  "list_all uniqueAttributes
     [Element ''DIV'' [(''class'', ''c''), (''id'', ''x'')]
        [Element ''SPAN'' [] [Text ''a''], Comment ''c'', Element ''P'' [] [Text ''H1: t''], Element ''I'' [] []]]
   \<and> concat (map processNode
       [Element ''DIV'' [(''class'', ''c''), (''id'', ''x'')]
        [Element ''SPAN'' [] [Text ''a''], Comment ''c'', Element ''P'' [] [Text ''H1: t''], Element ''I'' [] []]])
     = [Element ''DIV'' [(''id'', ''x'')] [Text ''a'', Element ''H1'' [] [Text ''t''], Element ''I'' [] []]]
   \<and> concat (map processNode
        [Element ''DIV'' [(''id'', ''x'')] [Text ''a'', Element ''H1'' [] [Text ''t''], Element ''I'' [] []]])
     = [Element ''DIV'' [(''id'', ''x'')] [Text ''a'', Element ''H1'' [] [Text ''t''], Element ''I'' [] []]]"
proof -
  let ?b = "[Element ''DIV'' [(''class'', ''c''), (''id'', ''x'')]
        [Element ''SPAN'' [] [Text ''a''], Comment ''c'', Element ''P'' [] [Text ''H1: t''], Element ''I'' [] []]]"
  have u: "list_all uniqueAttributes ?b" by (simp add: uniqueAttributes_def)
  have e: "concat (map processNode ?b)
     = [Element ''DIV'' [(''id'', ''x'')] [Text ''a'', Element ''H1'' [] [Text ''t''], Element ''I'' [] []]]"
    by code_simp
  from sanitizer_and_pruner_idempotent [OF u] have
    "concat (map processNode (concat (map processNode ?b))) = concat (map processNode ?b)" by blast
  with u e show ?thesis by simp
qed

text \<open>
  C2 as stated fails: the pruner runs after the list-item pass. For \<open><li><b></b>Name: x</li>\<close>
  the first run skips the auto-emphasis because the item starts with \<open>b\<close>, then prunes the
  empty \<open>b\<close> and returns \<open><li>Name: x</li>\<close>; a run on that output adds the \<open>strong\<close>.
\<close>

theorem cleanHTML_not_idempotent_counterexample:
  "cleanHTML [Element ''LI'' [] [Element ''B'' [] [], Text ''Name: x'']] = ''<li>Name: x</li>''
   \<and> cleanTree [Element ''LI'' [] [Element ''B'' [] [], Text ''Name: x'']]
       = [Element ''LI'' [] [Text ''Name: x'']]
   \<and> cleanHTML [Element ''LI'' [] [Text ''Name: x'']] = ''<li><strong>Name:</strong> x</li>''
   \<and> cleanTree (cleanTree [Element ''LI'' [] [Element ''B'' [] [], Text ''Name: x'']])
       \<noteq> cleanTree [Element ''LI'' [] [Element ''B'' [] [], Text ''Name: x'']]"
  by code_simp

end
